theory Spec2Isabelle
  imports Main "HOL-Library.Word"
begin

unbundle bit_operations_syntax

section \<open>Data model of bootloader.c\<close>

text \<open>
  The bootloader runs on an LM3S6965 (ARM Cortex-M3, little-endian). Plain \<open>char\<close> is
  unsigned on the ARM EABI, so every \<open>char\<close> and \<open>unsigned char\<close> of the source is a
  \<open>byte\<close>; \<open>uint16_t\<close> is \<open>16 word\<close>, \<open>uint32_t\<close>, \<open>int\<close> and \<open>long\<close> are
  \<open>32 word\<close>. A C array (or a \<open>char *\<close> into one) is a \<open>buffer\<close>: a function from
  the index to the byte. Loop counters and addresses that provably stay far below
  \<open>2^31\<close> are natural numbers.
\<close>

type_synonym byte = "8 word"
type_synonym buffer = "nat \<Rightarrow> byte"

definition METADATA_BASE :: nat where [simp]: "METADATA_BASE = 0xFC00"
definition RELEASE_BASE :: nat where [simp]: "RELEASE_BASE = 0xF800"
definition FW_BASE :: nat where [simp]: "FW_BASE = 0x10000"
definition FR_METADATA_SIZE :: nat where [simp]: "FR_METADATA_SIZE = 6"
definition FW_METADATA_SIZE :: nat where [simp]: "FW_METADATA_SIZE = 6"
definition FW_MAX_SIZE :: nat where [simp]: "FW_MAX_SIZE = 0x7800"
definition RELEASE_MAX_SIZE :: nat where [simp]: "RELEASE_MAX_SIZE = 0x400"
definition DATA_SIZE :: nat where
  [simp]: "DATA_SIZE = FW_MAX_SIZE + FW_METADATA_SIZE + RELEASE_MAX_SIZE"
definition FLASH_PAGESIZE :: nat where [simp]: "FLASH_PAGESIZE = 1024"
definition FLASH_WRITESIZE :: nat where [simp]: "FLASH_WRITESIZE = 4"
definition HMAC_SIZE :: nat where [simp]: "HMAC_SIZE = 32"
definition TAG_SIZE :: nat where [simp]: "TAG_SIZE = 16"
definition IV_SIZE :: nat where [simp]: "IV_SIZE = 16"
definition OK :: byte where [simp]: "OK = 0x00"
definition ERROR :: byte where [simp]: "ERROR = 0x01"

text \<open>The three serial ports: 0 is the reset line, 1 the host connection, 2 debug.\<close>

datatype uart = UART0 | UART1 | UART2

text \<open>
  One call of the flash driver, as the driver saw it: the page erased, or the address,
  the bytes and the status the call returned.
\<close>

datatype flash_call = Erased nat | Programmed nat "byte list" "32 word"

text \<open>
  Everything the update touches. \<open>rx u\<close> is what the host will still send on port
  \<open>u\<close>, each byte with the status the driver reports for it; \<open>tx u\<close> is what the
  device has written to the port. \<open>flash\<close> is the flash memory by address,
  \<open>flash_rets\<close> the statuses the coming calls of \<open>FlashProgram\<close> will return (the
  hardware decides them), \<open>flash_log\<close> the driver calls made so far. \<open>data\<close> and
  \<open>fw_release_message\<close> are the two global buffers of the source.
\<close>

record state =
  rx :: "uart \<Rightarrow> (byte \<times> bool) list"
  tx :: "uart \<Rightarrow> byte list"
  flash :: "nat \<Rightarrow> byte"
  flash_rets :: "32 word list"
  flash_log :: "flash_call list"
  data :: buffer
  fw_release_message :: buffer

text \<open>
  What lies outside bootloader.c and is fixed when the image is built: HMAC-SHA256 under
  \<open>hmac_key\<close> and AES-128-GCM under \<open>aes_key\<close> (BearSSL with the keys of secrets.h),
  as functions on byte strings. \<open>gcm_run iv ct\<close> is the plaintext, \<open>gcm_check_tag iv
  ct tag\<close> says whether the tag is the one GCM computes. \<open>neg_to_u16\<close> is the value the
  target gives the conversion of the double \<open>-1.0\<close> to \<open>uint16_t\<close>, which C leaves
  undefined (it is 0 with the saturating conversion of the ARM run-time ABI and 0xFFFF
  where the conversion goes through a signed integer).
\<close>

record platform =
  hmac_sha256 :: "byte list \<Rightarrow> byte list"
  gcm_run :: "byte list \<Rightarrow> byte list \<Rightarrow> byte list"
  gcm_check_tag :: "byte list \<Rightarrow> byte list \<Rightarrow> byte list \<Rightarrow> bool"
  neg_to_u16 :: "16 word"

text \<open>
  A call either returns a value and the new state, or the run ends there: the chip is
  reset (the error path), the blocking read waits for a byte that never comes, or a
  store falls outside the array \<open>data\<close> (undefined behaviour in C, kept apart here).
\<close>

datatype halt = Reset | Stall | OutOfBounds

type_synonym 'a result = "(halt \<times> state) + ('a \<times> state)"

definition ret :: "'a \<Rightarrow> state \<Rightarrow> 'a result" where
  "ret a s = Inr (a, s)"

definition bnd :: "(state \<Rightarrow> 'a result) \<Rightarrow> ('a \<Rightarrow> state \<Rightarrow> 'b result) \<Rightarrow> state \<Rightarrow> 'b result" where
  "bnd m f s = (case m s of Inl e \<Rightarrow> Inl e | Inr (a, s') \<Rightarrow> f a s')"

definition buf_of_list :: "byte list \<Rightarrow> buffer" where
  "buf_of_list xs = (\<lambda>i. if i < length xs then xs ! i else 0)"

definition bytes_of :: "buffer \<Rightarrow> nat \<Rightarrow> nat \<Rightarrow> byte list" where
  "bytes_of b off len = map b [off..<off + len]"

text \<open>\<open>(uint16_t) b[k] | (uint16_t) b[k + 1] << 8\<close>\<close>

definition u16_of :: "byte \<Rightarrow> byte \<Rightarrow> 16 word" where
  "u16_of lo hi = ucast lo OR push_bit 8 (ucast hi)"

section \<open>The serial ports and the reset\<close>

text \<open>
  Modelled from the spec: \<open>uart_read\<close>, \<open>uart_write\<close> and \<open>uart_write_str\<close> (uart.c is
  not among the sources). A read blocks until a byte arrives and reports whether the
  transport delivered it intact; a write has no error path. Every read of the source is
  \<open>BLOCKING\<close>.
\<close>

definition uart_read :: "uart \<Rightarrow> state \<Rightarrow> (byte \<times> bool) result" where
  "uart_read u s =
     (case rx s u of
        [] \<Rightarrow> Inl (Stall, s)
      | x # rest \<Rightarrow> Inr (x, s\<lparr>rx := (rx s)(u := rest)\<rparr>))"

definition uart_write :: "uart \<Rightarrow> byte \<Rightarrow> state \<Rightarrow> state" where
  "uart_write u b s = s\<lparr>tx := (tx s)(u := tx s u @ [b])\<rparr>"

definition byte_of_char :: "char \<Rightarrow> byte" where
  "byte_of_char c = word_of_nat (of_char c)"

definition uart_write_str :: "uart \<Rightarrow> string \<Rightarrow> state \<Rightarrow> state" where
  "uart_write_str u str s = s\<lparr>tx := (tx s)(u := tx s u @ map byte_of_char str)\<rparr>"

definition nl :: string where
  "nl = [CHR 0x0A]"

definition print_bolt :: "state \<Rightarrow> state" where
  "print_bolt s =
    (let s = uart_write_str UART2 (nl @ nl @ ''                      :LMW            '' @ nl) s;
         s = uart_write_str UART2 (''                  =ld#@@@!            '' @ nl) s;
         s = uart_write_str UART2 (''                 v@@@@@@M             '' @ nl) s;
         s = uart_write_str UART2 (''                `#@@@@@@_             '' @ nl) s;
         s = uart_write_str UART2 (''                l@@@@@@s              '' @ nl) s;
         s = uart_write_str UART2 (''               '' @ [CHR 0x27] @ ''#@@@@@#'' @ [CHR 0x27] @ ''_v`           '' @ nl) s;
         s = uart_write_str UART2 (''               I@@@@@@#B#^            '' @ nl) s;
         s = uart_write_str UART2 (''              -@@B@@@@@B'' @ [CHR 0x27] @ ''             '' @ nl) s;
         s = uart_write_str UART2 (''              :|-*@@@@$.              '' @ nl) s;
         s = uart_write_str UART2 (''                 Q@@@5`               '' @ nl) s;
         s = uart_write_str UART2 (''                v@@@V                 '' @ nl) s;
         s = uart_write_str UART2 (''               `#@#*                  '' @ nl) s;
         s = uart_write_str UART2 (''               u@#:                   '' @ nl) s;
         s = uart_write_str UART2 (''              .#8-                    '' @ nl) s;
         s = uart_write_str UART2 (''              sO.                     '' @ nl) s;
         s = uart_write_str UART2 (''             ,8I                      '' @ nl) s;
         s = uart_write_str UART2 (''                                      '' @ nl) s;
         s = uart_write_str UART2 (nl @ nl @ ''COPYRIGHT '' @ [CHR 0xC2, CHR 0xA9]
               @ '' 2021 struct by_lightning{};'' @ nl @ nl) s
     in s)"

text \<open>
  \<open>send_err\<close> writes its line to the debug port and the error byte to the host, then
  calls \<open>SysCtlReset\<close>, which resets the chip and does not return: the run ends with
  \<open>Reset\<close>, and the \<open>return\<close> that follows each \<open>send_err()\<close> in the source is never
  reached.
\<close>

definition send_err :: "state \<Rightarrow> 'a result" where
  "send_err s =
     Inl (Reset, uart_write UART1 ERROR
                   (uart_write_str UART2 (''Nice try, kid. Be more original.'' @ nl) s))"

text \<open>\<open>check_read\<close> returns \<open>!read\<close>, which is 0 whenever it returns at all.\<close>

definition check_read :: "bool \<Rightarrow> state \<Rightarrow> bool result" where
  "check_read rd s = (if \<not> rd then send_err s else Inr (\<not> rd, s))"

text \<open>
  \<open>uart_read_variable(uart, blocking, da, length)\<close>: the loop stores each byte in
  \<open>da[i]\<close> before it looks at the status. The port argument is not used by the body,
  which reads \<open>UART1\<close>.
\<close>

function uart_read_variable_loop :: "nat \<Rightarrow> buffer \<Rightarrow> nat \<Rightarrow> state \<Rightarrow> buffer result" where
  "uart_read_variable_loop i da len s =
     (if i < len \<and> i < FLASH_PAGESIZE then
        (case uart_read UART1 s of
           Inl e \<Rightarrow> Inl e
         | Inr ((b, rd), s1) \<Rightarrow>
             (case check_read rd s1 of
                Inl e \<Rightarrow> Inl e
              | Inr (c, s2) \<Rightarrow>
                  if c then Inr (da(i := b), s2)
                  else uart_read_variable_loop (Suc i) (da(i := b)) len s2))
      else Inr (da, s))"
  by pat_completeness auto
termination
  by (relation "measure (\<lambda>(i, da, len, s). len - i)") auto

definition uart_read_variable :: "uart \<Rightarrow> buffer \<Rightarrow> nat \<Rightarrow> state \<Rightarrow> buffer result" where
  "uart_read_variable u da len s = uart_read_variable_loop 0 da len s"

text \<open>
  The call of line 438 gives \<open>uart_read_variable\<close> the global array
  \<open>fw_release_message\<close> as \<open>da\<close>: the same loop, where the store \<open>da[i] = ...\<close> is a
  store to that array, so a byte is in \<open>fw_release_message\<close> as soon as it has been
  read, also when the run ends inside the loop.
\<close>

function uart_read_variable_msg_loop :: "nat \<Rightarrow> nat \<Rightarrow> state \<Rightarrow> unit result" where
  "uart_read_variable_msg_loop i len s =
     (if i < len \<and> i < FLASH_PAGESIZE then
        (case uart_read UART1 s of
           Inl e \<Rightarrow> Inl e
         | Inr ((b, rd), s1) \<Rightarrow>
             (case check_read rd (s1\<lparr>fw_release_message := (fw_release_message s1)(i := b)\<rparr>) of
                Inl e \<Rightarrow> Inl e
              | Inr (c, s2) \<Rightarrow>
                  if c then Inr ((), s2)
                  else uart_read_variable_msg_loop (Suc i) len s2))
      else Inr ((), s))"
  by pat_completeness auto
termination
  by (relation "measure (\<lambda>(i, len, s). len - i)") (auto simp: check_read_def send_err_def split: if_splits)

definition uart_read_variable_msg :: "uart \<Rightarrow> nat \<Rightarrow> state \<Rightarrow> unit result" where
  "uart_read_variable_msg u len s = uart_read_variable_msg_loop 0 len s"

section \<open>The HMAC check\<close>

text \<open>
  The compare loop of \<open>sha_hmac\<close>: \<open>check |= hmac[i] ^ out[i]\<close> for \<open>i\<close> from 0 to
  31. The function returns the counter with the accumulator, so that the number of
  positions visited can be stated.
\<close>

function hmac_compare :: "nat \<Rightarrow> 32 word \<Rightarrow> buffer \<Rightarrow> buffer \<Rightarrow> nat \<times> 32 word" where
  "hmac_compare i check hmac out =
     (if i < HMAC_SIZE
      then hmac_compare (Suc i) (check OR ucast (hmac i XOR out i)) hmac out
      else (i, check))"
  by pat_completeness auto
termination
  by (relation "measure (\<lambda>(i, check, hmac, out). HMAC_SIZE - i)") auto

text \<open>
  \<open>sha_hmac(data, len)\<close>: \<open>msg\<close> is \<open>data[0..len)\<close> as it stands when the function is
  called (the function itself stores only into its local arrays). It returns 32 when
  the MACs agree.
\<close>

definition sha_hmac :: "platform \<Rightarrow> byte list \<Rightarrow> state \<Rightarrow> 32 word result" where
  "sha_hmac p msg =
     bnd (uart_read_variable UART2 (\<lambda>i. 0) HMAC_SIZE) (\<lambda>hmac.
       let out = buf_of_list (hmac_sha256 p msg);
           check = snd (hmac_compare 0 0 hmac out)
       in if check \<noteq> 0 then send_err else ret 32)"

section \<open>The flash region manager\<close>

text \<open>
  Modelled from the spec: \<open>FlashErase\<close> and \<open>FlashProgram\<close> (the driver library is
  not among the sources). An erase sets every byte of the 1 KiB page that holds the
  address to \<open>0xFF\<close>. Programming only clears bits: each byte programmed becomes the
  conjunction of what the flash held and the byte written. \<open>FlashProgram\<close> returns the
  next status the hardware reports (0 when none is left); a call that reports a
  failure is taken to program nothing. The words at \<open>pulData\<close> are given as their
  bytes in memory order.
\<close>

definition FlashErase :: "nat \<Rightarrow> state \<Rightarrow> state" where
  "FlashErase addr s =
     s\<lparr>flash := (\<lambda>a. if a div FLASH_PAGESIZE = addr div FLASH_PAGESIZE then 0xFF else flash s a),
       flash_log := flash_log s @ [Erased addr]\<rparr>"

definition next_ret :: "32 word list \<Rightarrow> 32 word" where
  "next_ret rs = (case rs of [] \<Rightarrow> 0 | x # xs \<Rightarrow> x)"

definition FlashProgram :: "byte list \<Rightarrow> nat \<Rightarrow> state \<Rightarrow> 32 word \<times> state" where
  "FlashProgram bytes addr s =
     (let r = next_ret (flash_rets s);
          s1 = s\<lparr>flash_rets := tl (flash_rets s),
                 flash_log := flash_log s @ [Programmed addr bytes r]\<rparr>
      in if r = 0
         then (r, s1\<lparr>flash := (\<lambda>a. if addr \<le> a \<and> a < addr + length bytes
                                     then flash s a AND bytes ! (a - addr) else flash s a)\<rparr>)
         else (r, s1))"

text \<open>The four bytes of a word in memory, least significant first.\<close>

definition word_bytes :: "32 word \<Rightarrow> byte list" where
  "word_bytes w = [ucast w, ucast (drop_bit 8 w), ucast (drop_bit 16 w), ucast (drop_bit 24 w)]"

text \<open>
  The two loops of \<open>program_flash\<close> that build the last word:
  \<open>word = (word >> 8) | (data[num_full_bytes + i] << 24)\<close> while \<open>i < rem\<close>, then
  \<open>word = (word >> 8) | 0xFF000000\<close> while \<open>i < 4\<close>. Each returns the counter and
  the word.
\<close>

function last_word_data :: "nat \<Rightarrow> nat \<Rightarrow> nat \<Rightarrow> buffer \<Rightarrow> 32 word \<Rightarrow> nat \<times> 32 word" where
  "last_word_data i rem num_full_bytes src word =
     (if i < rem
      then last_word_data (Suc i) rem num_full_bytes src
             (drop_bit 8 word OR push_bit 24 (ucast (src (num_full_bytes + i))))
      else (i, word))"
  by pat_completeness auto
termination
  by (relation "measure (\<lambda>(i, rem, num_full_bytes, src, word). rem - i)") auto

function last_word_fill :: "nat \<Rightarrow> 32 word \<Rightarrow> nat \<times> 32 word" where
  "last_word_fill i word =
     (if i < 4 then last_word_fill (Suc i) (drop_bit 8 word OR 0xFF000000) else (i, word))"
  by pat_completeness auto
termination
  by (relation "measure (\<lambda>(i, word). 4 - i)") auto

text \<open>
  \<open>program_flash(page_addr, data, data_len)\<close>; \<open>src\<close> is the array at \<open>data\<close>. It has
  no error path of its own: it returns the status to its caller.
\<close>

definition program_flash :: "nat \<Rightarrow> buffer \<Rightarrow> nat \<Rightarrow> state \<Rightarrow> 32 word \<times> state" where
  "program_flash page_addr src data_len s =
     (let s = FlashErase page_addr s in
      if data_len mod FLASH_WRITESIZE \<noteq> 0 then
        (let rem = data_len mod FLASH_WRITESIZE;
             num_full_bytes = data_len - rem;
             (ret, s) = FlashProgram (bytes_of src 0 num_full_bytes) page_addr s
         in if ret \<noteq> 0 then (ret, s)
            else
              (let (i, word) = last_word_data 0 rem num_full_bytes src 0;
                   (i, word) = last_word_fill i word
               in FlashProgram (word_bytes word) (page_addr + num_full_bytes) s))
      else FlashProgram (bytes_of src 0 data_len) page_addr s)"

section \<open>The AES-GCM check\<close>

text \<open>
  \<open>gcm_decrypt_and_verify(ct, ct_len)\<close>, called once with \<open>ct = data\<close>: it reads the
  IV and the tag, decrypts \<open>data[0..ct_len)\<close> in place and then checks the tag. It
  returns 1 when the tag is right.
\<close>

definition gcm_decrypt_and_verify :: "platform \<Rightarrow> nat \<Rightarrow> state \<Rightarrow> 32 word result" where
  "gcm_decrypt_and_verify p ct_len =
     bnd (uart_read_variable UART2 (\<lambda>i. 0) IV_SIZE) (\<lambda>iv.
     bnd (uart_read_variable UART2 (\<lambda>i. 0) TAG_SIZE) (\<lambda>tag s.
       let ct = bytes_of (data s) 0 ct_len;
           pt = buf_of_list (gcm_run p (bytes_of iv 0 IV_SIZE) ct);
           s1 = s\<lparr>data := (\<lambda>i. if i < ct_len then pt i else data s i)\<rparr>
       in if \<not> gcm_check_tag p (bytes_of iv 0 IV_SIZE) ct (bytes_of tag 0 TAG_SIZE)
          then send_err s1
          else Inr (1, s1)))"

section \<open>The update\<close>

definition put :: "(state \<Rightarrow> state) \<Rightarrow> state \<Rightarrow> unit result" where
  "put f s = Inr ((), f s)"

text \<open>
  The variable \<open>size\<close> of \<open>load_firmware\<close> is \<open>fw_size\<close> below (\<open>size\<close> is a
  constant of HOL).
\<close>

text \<open>
  A store \<open>data[i] = b\<close>. The array has \<open>DATA_SIZE\<close> bytes; a store beyond it ends the
  run with \<open>OutOfBounds\<close>.
\<close>

definition data_write :: "nat \<Rightarrow> byte \<Rightarrow> state \<Rightarrow> unit result" where
  "data_write i b s =
     (if i < DATA_SIZE then Inr ((), s\<lparr>data := (data s)(i := b)\<rparr>)
      else Inl (OutOfBounds, s))"

text \<open>
  The copy loops of \<open>load_firmware\<close>, all of the shape
  \<open>for (i = 0; i < n; i++) data[off + i] = src[i]\<close>: the frame metadata appended after
  a frame, the firmware metadata at \<open>fw_size\<close>, the release message at \<open>fw_size + 6\<close>, and
  the zeroing of both (where \<open>src\<close> is constantly 0).
\<close>

function data_store :: "nat \<Rightarrow> nat \<Rightarrow> nat \<Rightarrow> buffer \<Rightarrow> state \<Rightarrow> unit result" where
  "data_store i n off src s =
     (if i < n then
        (case data_write (off + i) (src i) s of
           Inl e \<Rightarrow> Inl e
         | Inr (u, s1) \<Rightarrow> data_store (Suc i) n off src s1)
      else Inr ((), s))"
  by pat_completeness auto
termination
  by (relation "measure (\<lambda>(i, n, off, src, s). n - i)") auto

text \<open>
  \<open>frame_number = ceil((float) size / FLASH_PAGESIZE) - 1\<close>. A 16-bit size and its
  quotient by 1024 are exact in a float, so for \<open>fw_size > 0\<close> this is the number of
  pages minus one; for \<open>fw_size = 0\<close> it is the conversion of \<open>-1.0\<close>.
\<close>

definition frame_number_of :: "platform \<Rightarrow> 16 word \<Rightarrow> 16 word" where
  "frame_number_of p fw_size =
     (if fw_size = 0 then neg_to_u16 p
      else word_of_nat ((unat fw_size + (FLASH_PAGESIZE - 1)) div FLASH_PAGESIZE - 1))"

text \<open>
  The version in the flash, line 336:
  \<open>(*((uint8_t*) METADATA_BASE + 1) << 8) | *((uint8_t*) METADATA_BASE)\<close>.
\<close>

definition stored_version :: "state \<Rightarrow> 16 word" where
  "stored_version s =
     push_bit 8 (ucast (flash s (METADATA_BASE + 1))) OR ucast (flash s METADATA_BASE)"

text \<open>
  Lines 317 to 354: the firmware metadata, its HMAC, the version and size checks and
  the acknowledgement. The result is what the rest of the function uses: the array
  \<open>metadata\<close>, \<open>version\<close>, \<open>fw_size\<close>, \<open>r_msg_size\<close> and \<open>frame_number\<close>.
\<close>

definition load_firmware_metadata ::
  "platform \<Rightarrow> state \<Rightarrow> (buffer \<times> 16 word \<times> 16 word \<times> 16 word \<times> 16 word) result" where
  "load_firmware_metadata p =
     bnd (uart_read_variable UART1 (\<lambda>i. 0) FW_METADATA_SIZE) (\<lambda>metadata.
     bnd (sha_hmac p (bytes_of metadata 0 FW_METADATA_SIZE)) (\<lambda>r s.
       let version = u16_of (metadata 0) (metadata 1);
           fw_size = u16_of (metadata 2) (metadata 3);
           r_msg_size = u16_of (metadata 4) (metadata 5);
           frame_number = frame_number_of p fw_size;
           old_version = stored_version s
       in if version \<noteq> 0 \<and> version < old_version then send_err s
          else if unat fw_size > FW_MAX_SIZE then send_err s
          else if unat r_msg_size > RELEASE_MAX_SIZE then send_err s
          else Inr ((metadata, version, fw_size, r_msg_size, frame_number),
                    uart_write UART1 OK s)))"

text \<open>
  Lines 390 to 405: the bytes of one frame. The byte is stored and counted before the
  read status and the running count are checked.
\<close>

function read_frame ::
  "nat \<Rightarrow> 16 word \<Rightarrow> 16 word \<Rightarrow> 16 word \<Rightarrow> 32 word \<Rightarrow> state \<Rightarrow> (nat \<times> 32 word) result" where
  "read_frame i frame_length index fw_size bytes_recieved s =
     (if i < unat frame_length \<and> i < FLASH_PAGESIZE then
        (case uart_read UART1 s of
           Inl e \<Rightarrow> Inl e
         | Inr ((b, rd), s1) \<Rightarrow>
             (case data_write (FLASH_PAGESIZE * unat index + i) b s1 of
                Inl e \<Rightarrow> Inl e
              | Inr (u, s2) \<Rightarrow>
                  (case check_read rd s2 of
                     Inl e \<Rightarrow> Inl e
                   | Inr (c, s3) \<Rightarrow>
                       if unat (bytes_recieved + 1) > unat fw_size then send_err s3
                       else read_frame (Suc i) frame_length index fw_size (bytes_recieved + 1) s3)))
      else Inr ((i, bytes_recieved), s))"
  by pat_completeness auto
termination
  by (relation "measure (\<lambda>(i, frame_length, index, fw_size, bytes_recieved, s). unat frame_length - i)")
     auto

text \<open>
  Lines 358 to 422: one pass of the \<open>while (1)\<close> loop. It returns whether the loop
  ends (\<open>index == frame_number\<close>), the new \<open>index_check\<close> and the new
  \<open>bytes_recieved\<close>.
\<close>

definition load_firmware_frame ::
  "platform \<Rightarrow> 16 word \<Rightarrow> 16 word \<Rightarrow> 16 word \<Rightarrow> 16 word \<Rightarrow> 32 word \<Rightarrow> state
   \<Rightarrow> (bool \<times> 16 word \<times> 32 word) result" where
  "load_firmware_frame p version fw_size frame_number index_check bytes_recieved =
     bnd (uart_read_variable UART2 (\<lambda>i. 0) FR_METADATA_SIZE) (\<lambda>fr_metadata.
     bnd (sha_hmac p (bytes_of fr_metadata 0 FR_METADATA_SIZE)) (\<lambda>r.
       let index = u16_of (fr_metadata 0) (fr_metadata 1);
           frame_length = u16_of (fr_metadata 2) (fr_metadata 3);
           frame_version = u16_of (fr_metadata 4) (fr_metadata 5)
       in if index \<noteq> index_check \<or> index > frame_number then send_err
          else if unat frame_length > FLASH_PAGESIZE then send_err
          else if version \<noteq> frame_version \<or> frame_version = 1 then send_err
          else
            bnd (read_frame 0 frame_length index fw_size bytes_recieved) (\<lambda>(i, bytes_recieved).
            bnd (data_store 0 FR_METADATA_SIZE (FLASH_PAGESIZE * unat index + i) fr_metadata) (\<lambda>u.
            bnd (\<lambda>s. sha_hmac p (bytes_of (data s) (FLASH_PAGESIZE * unat index)
                                    (unat frame_length + FR_METADATA_SIZE)) s) (\<lambda>r.
            bnd (put (uart_write UART1 OK)) (\<lambda>u.
            ret (index = frame_number, index_check + 1, bytes_recieved)))))))"

lemma bnd_Inr_iff: "bnd m f s = Inr x \<longleftrightarrow> (\<exists>a s1. m s = Inr (a, s1) \<and> f a s1 = Inr x)"
  by (auto simp: bnd_def split: sum.splits)

lemma bnd_Inl_iff:
  "bnd m f s = Inl e \<longleftrightarrow> (m s = Inl e \<or> (\<exists>a s1. m s = Inr (a, s1) \<and> f a s1 = Inl e))"
  by (auto simp: bnd_def split: sum.splits)

lemma send_err_not_Inr [simp]: "send_err s \<noteq> Inr x"
  by (simp add: send_err_def)

lemma load_firmware_frame_Inr:
  assumes "load_firmware_frame p version fw_size frame_number index_check bytes_recieved s
             = Inr ((brk, ic', br'), s')"
  shows "index_check \<le> frame_number \<and> ic' = index_check + 1
         \<and> brk = (index_check = frame_number)"
  using assms
  unfolding load_firmware_frame_def
  by (auto simp: bnd_Inr_iff Let_def ret_def put_def split: if_splits prod.splits)

lemma unat_lt16: "(a :: 16 word) \<le> b \<Longrightarrow> a \<noteq> b \<Longrightarrow> unat a < unat b"
  by (simp add: word_le_nat_alt word_unat_eq_iff)

lemma unat_succ_below: "(a :: 16 word) \<le> b \<Longrightarrow> a \<noteq> b \<Longrightarrow> unat (a + 1) = Suc (unat a)"
proof -
  assume "a \<le> b" "a \<noteq> b"
  then have "unat a < unat b" by (rule unat_lt16)
  moreover have "unat b < 2 ^ 16" using unsigned_less [of b, where ?'a = nat] by simp
  ultimately have "unat a + 1 < 2 ^ 16" by simp
  then show ?thesis by (simp add: unat_word_ariths)
qed

text \<open>
  Lines 357 to 423: the \<open>while (1)\<close> loop over the frames, from the current
  \<open>index_check\<close> and \<open>bytes_recieved\<close>. It returns \<open>bytes_recieved\<close>. Each pass
  that does not end the loop has \<open>index_check < frame_number\<close> and adds one to
  \<open>index_check\<close>, so the loop makes at most \<open>frame_number + 1\<close> passes.
\<close>

function load_firmware_frames ::
  "platform \<Rightarrow> 16 word \<Rightarrow> 16 word \<Rightarrow> 16 word \<Rightarrow> 16 word \<Rightarrow> 32 word \<Rightarrow> state \<Rightarrow> 32 word result" where
  "load_firmware_frames p version fw_size frame_number index_check bytes_recieved s =
     (case load_firmware_frame p version fw_size frame_number index_check bytes_recieved s of
        Inl e \<Rightarrow> Inl e
      | Inr ((brk, index_check', bytes_recieved'), s') \<Rightarrow>
          if brk then Inr (bytes_recieved', s')
          else load_firmware_frames p version fw_size frame_number index_check' bytes_recieved' s')"
  by pat_completeness auto
termination
proof (relation "measure (\<lambda>(p, version, fw_size, frame_number, index_check, bytes_recieved, s).
                    unat frame_number - unat index_check)", goal_cases)
  case 1
  show ?case by simp
next
  case (2 p version fw_size frame_number index_check bytes_recieved s x2 x y brk z ic' br')
  then have fr: "load_firmware_frame p version fw_size frame_number index_check bytes_recieved s
                   = Inr ((False, ic', br'), y)"
    by simp
  from load_firmware_frame_Inr [OF fr]
  have le: "index_check \<le> frame_number" and ic: "ic' = index_check + 1"
    and ne: "index_check \<noteq> frame_number"
    by auto
  have "unat ic' = Suc (unat index_check)"
    using unat_succ_below [OF le ne] ic by simp
  moreover have "unat index_check < unat frame_number"
    using le ne by (rule unat_lt16)
  ultimately show ?case by simp
qed

text \<open>
  Lines 425 to 466: the size check, the HMAC of the whole firmware, the release
  message and its HMAC, the combined HMAC, the zeroing of the trailing bytes and the
  decryption, each acknowledged with \<open>OK\<close>.
\<close>

definition load_firmware_verify ::
  "platform \<Rightarrow> buffer \<Rightarrow> 16 word \<Rightarrow> 16 word \<Rightarrow> 32 word \<Rightarrow> state \<Rightarrow> unit result" where
  "load_firmware_verify p metadata fw_size r_msg_size bytes_recieved =
     (\<lambda>s. if unat fw_size \<noteq> unat bytes_recieved then send_err s else
     bnd (\<lambda>s. sha_hmac p (bytes_of (data s) 0 (unat fw_size)) s) (\<lambda>r.
     bnd (put (uart_write UART1 OK)) (\<lambda>u.
     bnd (uart_read_variable_msg UART2 (unat r_msg_size)) (\<lambda>u.
     bnd (\<lambda>s. sha_hmac p (bytes_of (fw_release_message s) 0 (unat r_msg_size)) s) (\<lambda>r.
     bnd (put (uart_write UART1 OK)) (\<lambda>u.
     bnd (data_store 0 FW_METADATA_SIZE (unat fw_size) metadata) (\<lambda>u.
     bnd (\<lambda>s. data_store 0 (min (unat r_msg_size) RELEASE_MAX_SIZE)
                 (unat fw_size + FW_METADATA_SIZE) (fw_release_message s) s) (\<lambda>u.
     bnd (\<lambda>s. sha_hmac p (bytes_of (data s) 0
                 (unat fw_size + FW_METADATA_SIZE + unat r_msg_size)) s) (\<lambda>r.
     bnd (data_store 0 (min (FW_METADATA_SIZE + unat r_msg_size)
                            (FW_METADATA_SIZE + RELEASE_MAX_SIZE)) (unat fw_size) (\<lambda>i. 0)) (\<lambda>u.
     bnd (put (uart_write UART1 OK)) (\<lambda>u.
     bnd (gcm_decrypt_and_verify p (unat fw_size)) (\<lambda>r.
     put (uart_write UART1 OK)))))))))))) s)"

text \<open>
  Lines 468 to 484: the firmware pages, \<open>i\<close> from 0 in steps of one page while
  \<open>i < size\<close>.
\<close>

function flash_firmware :: "nat \<Rightarrow> nat \<Rightarrow> 16 word \<Rightarrow> state \<Rightarrow> unit result" where
  "flash_firmware i page_addr fw_size s =
     (if i < unat fw_size then
        (let frame_length = (word_of_nat (unat fw_size - i) :: 16 word);
             frame_length = (if unat frame_length > FLASH_PAGESIZE
                             then word_of_nat FLASH_PAGESIZE else frame_length);
             (r, s1) = program_flash page_addr (\<lambda>k. data s (i + k)) (unat frame_length) s
         in if r \<noteq> 0 then send_err s1
            else flash_firmware (i + FLASH_PAGESIZE) (page_addr + FLASH_PAGESIZE) fw_size s1)
      else Inr ((), s))"
  by pat_completeness auto
termination
  by (relation "measure (\<lambda>(i, page_addr, fw_size, s). unat fw_size - i)") auto

text \<open>
  Lines 468 to 502: the commit. After the firmware pages, a debug upload
  (\<open>version == 0\<close>) takes the two version bytes of the metadata from the flash; then
  the metadata page and the release message page are programmed.
\<close>

definition load_firmware_commit ::
  "buffer \<Rightarrow> 16 word \<Rightarrow> 16 word \<Rightarrow> 16 word \<Rightarrow> state \<Rightarrow> unit result" where
  "load_firmware_commit metadata version fw_size r_msg_size =
     bnd (flash_firmware 0 FW_BASE fw_size) (\<lambda>u s.
       let metadata = (if version = 0
                       then metadata(0 := flash s METADATA_BASE, 1 := flash s (METADATA_BASE + 1))
                       else metadata);
           (r, s1) = program_flash METADATA_BASE metadata FW_METADATA_SIZE s
       in if r \<noteq> 0 then send_err s1
          else
            (let (r, s2) = program_flash RELEASE_BASE (fw_release_message s1) (unat r_msg_size) s1
             in if r \<noteq> 0 then send_err s2 else Inr ((), s2)))"

text \<open>
  \<open>load_firmware\<close>, lines 294 to 503, in two parts: everything up to the
  acknowledgement of the decryption (line 466), which returns the variables the commit
  uses, and the commit.
\<close>

definition load_firmware_precommit ::
  "platform \<Rightarrow> state \<Rightarrow> (buffer \<times> 16 word \<times> 16 word \<times> 16 word) result" where
  "load_firmware_precommit p =
     bnd (put print_bolt) (\<lambda>u.
     bnd (load_firmware_metadata p) (\<lambda>(metadata, version, fw_size, r_msg_size, frame_number).
     bnd (load_firmware_frames p version fw_size frame_number 0 0) (\<lambda>bytes_recieved.
     bnd (load_firmware_verify p metadata fw_size r_msg_size bytes_recieved) (\<lambda>u.
     ret (metadata, version, fw_size, r_msg_size)))))"

definition load_firmware :: "platform \<Rightarrow> state \<Rightarrow> unit result" where
  "load_firmware p =
     bnd (load_firmware_precommit p) (\<lambda>(metadata, version, fw_size, r_msg_size).
     load_firmware_commit metadata version fw_size r_msg_size)"

section \<open>Running the model\<close>

text \<open>
  \<open>ok_bytes bs\<close> is the bytes \<open>bs\<close> arriving intact; \<open>final r\<close> is the state in
  which a run ended, however it ended.
\<close>

definition ok_bytes :: "byte list \<Rightarrow> (byte \<times> bool) list" where
  "ok_bytes bs = map (\<lambda>b. (b, True)) bs"

definition final :: "'a result \<Rightarrow> state" where
  "final r = (case r of Inl (h, s) \<Rightarrow> s | Inr (a, s) \<Rightarrow> s)"

text \<open>
  A platform and a device to run the model on: a checksum in place of HMAC-SHA256, a
  complement in place of AES-GCM. \<open>device r1 r2 fl\<close> has \<open>r1\<close> pending on UART1,
  \<open>r2\<close> pending on UART2, and the flash \<open>fl\<close>.
\<close>

definition toy_mac :: "byte list \<Rightarrow> byte list" where
  "toy_mac d = replicate 32 (fold (+) d 0x5A)"

definition toy_platform :: "16 word \<Rightarrow> platform" where
  "toy_platform c =
     \<lparr>hmac_sha256 = toy_mac,
      gcm_run = (\<lambda>iv ct. map (\<lambda>b. b XOR 0xFF) ct),
      gcm_check_tag = (\<lambda>iv ct tag. tag = replicate 16 (fold (+) (iv @ ct) 0)),
      neg_to_u16 = c\<rparr>"

definition device :: "(byte \<times> bool) list \<Rightarrow> (byte \<times> bool) list \<Rightarrow> (nat \<Rightarrow> byte) \<Rightarrow> state" where
  "device r1 r2 fl =
     \<lparr>rx = (\<lambda>u. case u of UART0 \<Rightarrow> [] | UART1 \<Rightarrow> r1 | UART2 \<Rightarrow> r2),
      tx = (\<lambda>u. []),
      flash = fl, flash_rets = [], flash_log = [],
      data = (\<lambda>i. 0), fw_release_message = (\<lambda>i. 0)\<rparr>"

declare uart_read_variable_loop.simps [simp del]
declare uart_read_variable_msg_loop.simps [simp del]
declare hmac_compare.simps [simp del]
declare last_word_data.simps [simp del]
declare last_word_fill.simps [simp del]
declare data_store.simps [simp del]
declare read_frame.simps [simp del]
declare load_firmware_frames.simps [simp del]
declare flash_firmware.simps [simp del]

subsection \<open>Reading from the serial port\<close>

lemma rx_upd_same [simp]: "rx s u = r \<Longrightarrow> s\<lparr>rx := (rx s)(u := r)\<rparr> = s"
  by (cases s) auto

lemma uart_read_variable_loop_ok:
  "rx s UART1 = ok_bytes bs @ rest \<Longrightarrow> i + length bs = min len 1024 \<Longrightarrow>
   uart_read_variable_loop i da len s
     = Inr (\<lambda>k. if i \<le> k \<and> k < i + length bs then bs ! (k - i) else da k,
            s\<lparr>rx := (rx s)(UART1 := rest)\<rparr>)"
proof (induction bs arbitrary: i da s)
  case Nil
  then show ?case
    by (subst uart_read_variable_loop.simps) (auto simp: ok_bytes_def fun_eq_iff)
next
  case (Cons b bs)
  let ?s1 = "s\<lparr>rx := (rx s)(UART1 := ok_bytes bs @ rest)\<rparr>"
  have lt: "i < len \<and> i < 1024" using Cons.prems(2) by auto
  have rd: "uart_read UART1 s = Inr ((b, True), ?s1)"
    using Cons.prems(1) by (simp add: uart_read_def ok_bytes_def)
  have ih: "uart_read_variable_loop (Suc i) (da(i := b)) len ?s1
     = Inr (\<lambda>k. if Suc i \<le> k \<and> k < Suc i + length bs then bs ! (k - Suc i) else (da(i := b)) k,
            ?s1\<lparr>rx := (rx ?s1)(UART1 := rest)\<rparr>)"
    by (rule Cons.IH) (use Cons.prems(2) in auto)
  have f: "(\<lambda>k. if Suc i \<le> k \<and> k < Suc i + length bs then bs ! (k - Suc i) else (da(i := b)) k)
         = (\<lambda>k. if i \<le> k \<and> k < i + length (b # bs) then (b # bs) ! (k - i) else da k)"
    by (rule ext) (auto simp: nth_Cons' Suc_diff_Suc less_Suc_eq_le)
  have step: "uart_read_variable_loop i da len s
                = uart_read_variable_loop (Suc i) (da(i := b)) len ?s1"
    by (subst uart_read_variable_loop.simps) (simp add: lt rd check_read_def)
  have st: "?s1\<lparr>rx := (rx ?s1)(UART1 := rest)\<rparr> = s\<lparr>rx := (rx s)(UART1 := rest)\<rparr>"
    by simp
  show ?case
    by (simp only: step ih f st)
qed

lemma uart_read_variable_ok:
  assumes "rx s UART1 = ok_bytes bs @ rest" "length bs = len" "len \<le> 1024"
  shows "uart_read_variable u (\<lambda>i. 0) len s = Inr (buf_of_list bs, s\<lparr>rx := (rx s)(UART1 := rest)\<rparr>)"
proof -
  have "uart_read_variable_loop 0 (\<lambda>i. 0) len s
     = Inr (\<lambda>k. if 0 \<le> k \<and> k < 0 + length bs then bs ! (k - 0) else 0,
            s\<lparr>rx := (rx s)(UART1 := rest)\<rparr>)"
    by (rule uart_read_variable_loop_ok) (use assms in auto)
  then show ?thesis
    by (simp add: uart_read_variable_def buf_of_list_def fun_eq_iff)
qed

lemma bytes_of_buf_of_list [simp]: "bytes_of (buf_of_list bs) 0 (length bs) = bs"
  by (auto simp: bytes_of_def buf_of_list_def intro: nth_equalityI)

subsection \<open>The compare loop\<close>

lemma ucast_byte_0: "(ucast (x :: byte) :: 32 word) = 0 \<longleftrightarrow> x = 0"
proof
  assume z: "(ucast x :: 32 word) = 0"
  show "x = 0"
  proof (rule bit_eqI)
    fix n
    have "\<not> bit x n"
    proof
      assume b: "bit x n"
      then have "n < 8" using bit_imp_le_length [of x n] by simp
      with b have "bit (ucast x :: 32 word) n" by (simp add: bit_simps)
      with z show False by simp
    qed
    then show "bit x n \<longleftrightarrow> bit (0 :: byte) n" by simp
  qed
qed simp

lemma xor_byte_0: "(x :: byte) XOR y = 0 \<longleftrightarrow> x = y"
  by (metis bit.xor_left_self xor.right_neutral)

lemma hmac_compare_fst: "fst (hmac_compare i c h out) = max i 32"
  by (induction i c h out rule: hmac_compare.induct) (simp add: hmac_compare.simps)

lemma hmac_compare_snd:
  "snd (hmac_compare i c h out) = 0 \<longleftrightarrow> c = 0 \<and> (\<forall>k. i \<le> k \<and> k < 32 \<longrightarrow> h k = out k)"
proof (induction i c h out rule: hmac_compare.induct)
  case (1 i check hmac out)
  show ?case
  proof (cases "i < 32")
    case True
    have split: "(\<forall>k. i \<le> k \<and> k < 32 \<longrightarrow> hmac k = out k)
          \<longleftrightarrow> hmac i = out i \<and> (\<forall>k. Suc i \<le> k \<and> k < 32 \<longrightarrow> hmac k = out k)"
      (is "?L \<longleftrightarrow> ?R")
    proof
      assume ?L
      then show ?R using True by auto
    next
      assume r: ?R
      show ?L
      proof (intro allI impI)
        fix k assume "i \<le> k \<and> k < 32"
        then show "hmac k = out k" using r by (cases "k = i") auto
      qed
    qed
    have "snd (hmac_compare i check hmac out)
            = snd (hmac_compare (Suc i) (check OR ucast (hmac i XOR out i)) hmac out)"
      using True by (subst hmac_compare.simps) simp
    also have "\<dots> = 0 \<longleftrightarrow> (check OR ucast (hmac i XOR out i)) = 0
                 \<and> (\<forall>k. Suc i \<le> k \<and> k < 32 \<longrightarrow> hmac k = out k)"
      using "1" True by simp
    finally show ?thesis
      unfolding split by (simp add: or_eq_0_iff ucast_byte_0 xor_byte_0)
  next
    case False
    then show ?thesis by (subst hmac_compare.simps) auto
  qed
qed

lemma sha_hmac_ok:
  assumes "rx s UART1 = ok_bytes mac @ rest" "length mac = 32"
  shows "sha_hmac p msg s =
           (if \<forall>k<32. mac ! k = buf_of_list (hmac_sha256 p msg) k
            then Inr (32, s\<lparr>rx := (rx s)(UART1 := rest)\<rparr>)
            else send_err (s\<lparr>rx := (rx s)(UART1 := rest)\<rparr>))"
proof -
  have rd: "uart_read_variable UART2 (\<lambda>i. 0) 32 s
              = Inr (buf_of_list mac, s\<lparr>rx := (rx s)(UART1 := rest)\<rparr>)"
    by (rule uart_read_variable_ok) (use assms in auto)
  have eq: "(\<forall>k<32. mac ! k = buf_of_list (hmac_sha256 p msg) k)
        \<longleftrightarrow> (\<forall>k. 0 \<le> k \<and> k < 32 \<longrightarrow> buf_of_list mac k = buf_of_list (hmac_sha256 p msg) k)"
    using assms(2) by (auto simp: buf_of_list_def)
  show ?thesis
    unfolding eq
    by (simp add: sha_hmac_def bnd_def rd Let_def ret_def
                  hmac_compare_snd [of 0 0, simplified])
qed


lemma buf_of_list_eq_iff:
  "length xs = n \<Longrightarrow> length ys = n \<Longrightarrow> (\<forall>k<n. xs ! k = buf_of_list ys k) \<longleftrightarrow> xs = ys"
  by (auto simp: buf_of_list_def list_eq_iff_nth_eq)

subsection \<open>What a run leaves alone\<close>

text \<open>
  \<open>untouched s s'\<close>: from \<open>s\<close> to \<open>s'\<close> the flash, the record of driver calls and
  the bytes pending on the debug port are the same. \<open>in_bounds r\<close>: the run did not
  end in a store outside \<open>data\<close>.
\<close>

definition untouched :: "state \<Rightarrow> state \<Rightarrow> bool" where
  "untouched s s' \<longleftrightarrow> flash s' = flash s \<and> flash_rets s' = flash_rets s
                     \<and> flash_log s' = flash_log s \<and> rx s' UART2 = rx s UART2"

lemma untouched_refl [simp]: "untouched s s"
  by (simp add: untouched_def)

lemma untouched_trans: "untouched s s1 \<Longrightarrow> untouched s1 s2 \<Longrightarrow> untouched s s2"
  by (simp add: untouched_def)

lemma final_simps [simp]: "final (Inl (h, s)) = s" "final (Inr (a, s)) = s"
  by (simp_all add: final_def)

lemma final_bnd:
  "final (bnd m f s) = (case m s of Inl (h, s1) \<Rightarrow> s1 | Inr (a, s1) \<Rightarrow> final (f a s1))"
  by (simp add: bnd_def split: sum.splits prod.splits)

lemma untouched_bnd:
  assumes "untouched s (final (m s))" and "\<And>a s1. m s = Inr (a, s1) \<Longrightarrow> untouched s1 (final (f a s1))"
  shows "untouched s (final (bnd m f s))"
  using assms by (auto simp: final_bnd split: sum.splits intro: untouched_trans)

lemma untouched_uart_read1 [simp]: "untouched s (final (uart_read UART1 s))"
  by (auto simp: uart_read_def untouched_def split: list.splits)

lemma untouched_send_err [simp]: "untouched s (final (send_err s))"
  by (simp add: send_err_def untouched_def uart_write_def uart_write_str_def)

lemma untouched_check_read [simp]: "untouched s (final (check_read rd s))"
  by (simp add: check_read_def)


definition in_bounds :: "'a result \<Rightarrow> bool" where
  "in_bounds r = (case r of Inl (h, s) \<Rightarrow> h \<noteq> OutOfBounds | Inr x \<Rightarrow> True)"

lemma in_bounds_simps [simp]:
  "in_bounds (Inl (h, s)) \<longleftrightarrow> h \<noteq> OutOfBounds" "in_bounds (Inr x)"
  by (simp_all add: in_bounds_def)

lemma in_bounds_bnd:
  assumes "in_bounds (m s)" and "\<And>a s1. m s = Inr (a, s1) \<Longrightarrow> in_bounds (f a s1)"
  shows "in_bounds (bnd m f s)"
  using assms by (auto simp: bnd_def split: sum.splits)

lemma in_bounds_uart_read [simp]: "in_bounds (uart_read u s)"
  by (simp add: uart_read_def split: list.splits)

lemma in_bounds_send_err [simp]: "in_bounds (send_err s)"
  by (simp add: send_err_def)

lemma in_bounds_check_read [simp]: "in_bounds (check_read rd s)"
  by (simp add: check_read_def)

lemma in_bounds_ret [simp]: "in_bounds (ret a s)"
  by (simp add: ret_def)

lemma untouched_ret [simp]: "untouched s (final (ret a s))"
  by (simp add: ret_def)

lemma uart_read_variable_loop_unfold:
  "uart_read_variable_loop i da len =
     (if i < len \<and> i < FLASH_PAGESIZE then
        bnd (uart_read UART1) (\<lambda>(b, rd).
        bnd (check_read rd) (\<lambda>c.
          if c then ret (da(i := b)) else uart_read_variable_loop (Suc i) (da(i := b)) len))
      else ret da)"
  by (rule ext, subst uart_read_variable_loop.simps)
     (simp add: bnd_def ret_def split: sum.splits prod.splits)

lemma untouched_uart_read_variable_loop [simp]:
  "untouched s (final (uart_read_variable_loop i da len s))"
proof (induction "len - i" arbitrary: i da s)
  case 0
  then show ?case by (subst uart_read_variable_loop_unfold) simp
next
  case (Suc n)
  then have "n = len - Suc i" by simp
  then show ?case
    by (subst uart_read_variable_loop_unfold)
       (auto intro!: untouched_bnd Suc.hyps(1) split: prod.splits simp del: fun_upd_apply)
qed

lemma in_bounds_uart_read_variable_loop [simp]:
  "in_bounds (uart_read_variable_loop i da len s)"
proof (induction "len - i" arbitrary: i da s)
  case 0
  then show ?case by (subst uart_read_variable_loop_unfold) simp
next
  case (Suc n)
  then have "n = len - Suc i" by simp
  then show ?case
    by (subst uart_read_variable_loop_unfold)
       (auto intro!: in_bounds_bnd Suc.hyps(1) split: prod.splits simp del: fun_upd_apply)
qed


subsection \<open>The flash region manager\<close>

text \<open>
  The last word as the specification describes it: the remaining \<open>rem\<close> bytes, then
  \<open>0xFF\<close> in the unused high bytes. \<open>new_calls s s'\<close> are the driver calls made from
  \<open>s\<close> to \<open>s'\<close>; a call has \<open>failed\<close> when it is a \<open>FlashProgram\<close> that returned
  non-zero.
\<close>

definition padded_last_word :: "buffer \<Rightarrow> nat \<Rightarrow> nat \<Rightarrow> byte list" where
  "padded_last_word src nfb rem = bytes_of src nfb rem @ replicate (4 - rem) 0xFF"

lemma replicate_small:
  "replicate 3 x = [x, x, x]" "replicate 2 x = [x, x]" "replicate 1 x = [x]"
  by (simp_all add: numeral_3_eq_3 numeral_2_eq_2)

definition new_calls :: "state \<Rightarrow> state \<Rightarrow> flash_call list" where
  "new_calls s s' = drop (length (flash_log s)) (flash_log s')"

fun failed :: "flash_call \<Rightarrow> bool" where
  "failed (Erased a) = False"
| "failed (Programmed a bs r) = (r \<noteq> 0)"

definition flash0 :: "nat \<Rightarrow> byte" where
  "flash0 a = 0"

lemma ff_hi: "(0xFF000000 :: 32 word) = push_bit 24 (mask 8)"
  by (simp add: mask_eq_exp_minus_1)

lemma ff_byte: "(0xFF :: byte) = mask 8"
  by (simp add: mask_eq_exp_minus_1)

lemma last_word_1:
  "word_bytes (snd (last_word_fill 1 (snd (last_word_data 0 1 nfb src 0))))
     = [src nfb, 0xFF, 0xFF, 0xFF]"
  apply (simp add: last_word_data.simps last_word_fill.simps word_bytes_def ff_hi ff_byte
              del: mask_eq_exp_minus_1)
  apply (intro conjI bit_eqI)
  apply (auto simp: bit_simps dest: bit_imp_le_length)
  done

lemma last_word_2:
  "word_bytes (snd (last_word_fill 2 (snd (last_word_data 0 2 nfb src 0))))
     = [src nfb, src (nfb + 1), 0xFF, 0xFF]"
  apply (simp add: last_word_data.simps last_word_fill.simps word_bytes_def ff_hi ff_byte
              del: mask_eq_exp_minus_1)
  apply (intro conjI bit_eqI)
  apply (auto simp: bit_simps dest: bit_imp_le_length)
  done

lemma last_word_3:
  "word_bytes (snd (last_word_fill 3 (snd (last_word_data 0 3 nfb src 0))))
     = [src nfb, src (nfb + 1), src (nfb + 2), 0xFF]"
  apply (simp add: last_word_data.simps last_word_fill.simps word_bytes_def ff_hi ff_byte
              del: mask_eq_exp_minus_1)
  apply (intro conjI bit_eqI)
  apply (auto simp: bit_simps dest: bit_imp_le_length)
  done

lemma last_word_data_fst: "fst (last_word_data i rem nfb src w) = max i rem"
  by (induction i rem nfb src w rule: last_word_data.induct) (simp add: last_word_data.simps)

lemma last_word_bytes:
  assumes "0 < rem" "rem < 4"
  shows "word_bytes (snd (last_word_fill (fst (last_word_data 0 rem nfb src 0))
                                          (snd (last_word_data 0 rem nfb src 0))))
         = padded_last_word src nfb rem"
proof -
  from assms consider "rem = 1" | "rem = 2" | "rem = 3" by linarith
  then show ?thesis
  proof cases
    case 1
    then show ?thesis
      using last_word_1 [of nfb src] by (simp add: last_word_data_fst padded_last_word_def bytes_of_def replicate_small)
  next
    case 2
    have "[nfb..<nfb + 2] = [nfb, nfb + 1]" by (simp add: upt_rec [of nfb] upt_rec [of "Suc nfb"])
    then show ?thesis
      using 2 last_word_2 [of nfb src]
      by (simp add: last_word_data_fst padded_last_word_def bytes_of_def replicate_small)
  next
    case 3
    have "[nfb..<nfb + 3] = [nfb, nfb + 1, nfb + 2]"
      by (simp add: upt_rec [of nfb] upt_rec [of "Suc nfb"] upt_rec [of "Suc (Suc nfb)"])
    then show ?thesis
      using 3 last_word_3 [of nfb src]
      by (simp add: last_word_data_fst padded_last_word_def bytes_of_def replicate_small)
  qed
qed

lemma program_flash_whole_words:
  "data_len mod FLASH_WRITESIZE = 0 \<Longrightarrow>
     program_flash page_addr src data_len s
       = FlashProgram (bytes_of src 0 data_len) page_addr (FlashErase page_addr s)"
  by (simp add: program_flash_def)

lemma program_flash_partial_word:
  assumes "data_len mod FLASH_WRITESIZE \<noteq> 0"
  shows "program_flash page_addr src data_len s =
     (let num_full_bytes = data_len div FLASH_WRITESIZE * FLASH_WRITESIZE;
          (r, s1) = FlashProgram (bytes_of src 0 num_full_bytes) page_addr (FlashErase page_addr s)
      in if r \<noteq> 0 then (r, s1)
         else FlashProgram (padded_last_word src num_full_bytes (data_len mod FLASH_WRITESIZE))
                (page_addr + num_full_bytes) s1)"
proof -
  have r: "0 < data_len mod 4" "data_len mod 4 < 4" using assms by simp_all
  have n: "data_len - data_len mod 4 = data_len div 4 * 4"
    by (simp add: minus_mod_eq_div_mult)
  show ?thesis
    using assms
    by (simp add: program_flash_def Let_def split_beta last_word_bytes [OF r] n)
qed

lemma FlashProgram_log:
  "flash_log (snd (FlashProgram bs a s)) = flash_log s @ [Programmed a bs (fst (FlashProgram bs a s))]"
  by (simp add: FlashProgram_def Let_def)

lemma FlashErase_log: "flash_log (FlashErase a s) = flash_log s @ [Erased a]"
  by (simp add: FlashErase_def)

lemma program_flash_returns_failure:
  "fst (program_flash page_addr src data_len s) \<noteq> 0
     \<longleftrightarrow> list_ex failed (new_calls s (snd (program_flash page_addr src data_len s)))"
proof (cases "data_len mod FLASH_WRITESIZE = 0")
  case True
  show ?thesis
    by (simp add: program_flash_whole_words [OF True] new_calls_def FlashProgram_log FlashErase_log)
next
  case False
  show ?thesis
    by (simp add: program_flash_partial_word [OF False] new_calls_def FlashProgram_log
                  FlashErase_log Let_def split_beta)
qed

subsection \<open>The stages of the update\<close>

lemma untouched_put:
  "untouched s (f s) \<Longrightarrow> untouched s (final (put f s))"
  by (simp add: put_def)

lemma untouched_uart_write [simp]: "untouched s (uart_write u b s)"
  by (simp add: untouched_def uart_write_def)

lemma untouched_uart_write_str [simp]: "untouched s (uart_write_str u str s)"
  by (simp add: untouched_def uart_write_str_def)

lemma untouched_print_bolt [simp]: "untouched s (print_bolt s)"
  unfolding print_bolt_def Let_def
  by (intro untouched_trans [OF _ untouched_uart_write_str] untouched_refl)

lemma in_bounds_put [simp]: "in_bounds (put f s)"
  by (simp add: put_def)

lemma untouched_uart_read_variable [simp]: "untouched s (final (uart_read_variable u da len s))"
  by (simp add: uart_read_variable_def)

lemma in_bounds_uart_read_variable [simp]: "in_bounds (uart_read_variable u da len s)"
  by (simp add: uart_read_variable_def)

lemma untouched_sha_hmac [simp]: "untouched s (final (sha_hmac p msg s))"
  unfolding sha_hmac_def Let_def
  by (auto intro!: untouched_bnd)

lemma in_bounds_sha_hmac [simp]: "in_bounds (sha_hmac p msg s)"
  unfolding sha_hmac_def Let_def
  by (auto intro!: in_bounds_bnd)

lemma untouched_data_upd [simp]: "untouched s (s\<lparr>data := d\<rparr>)"
  by (simp add: untouched_def)

lemma untouched_msg_upd [simp]: "untouched s (s\<lparr>fw_release_message := d\<rparr>)"
  by (simp add: untouched_def)

lemma in_bounds_msg_upd [simp]: "in_bounds (put (\<lambda>s. s\<lparr>fw_release_message := d s\<rparr>) s)"
  by (simp add: put_def)

lemma uart_read_variable_msg_loop_unfold:
  "uart_read_variable_msg_loop i len =
     (if i < len \<and> i < FLASH_PAGESIZE then
        bnd (uart_read UART1) (\<lambda>(b, rd).
        bnd (put (\<lambda>s. s\<lparr>fw_release_message := (fw_release_message s)(i := b)\<rparr>)) (\<lambda>u.
        bnd (check_read rd) (\<lambda>c.
          if c then ret () else uart_read_variable_msg_loop (Suc i) len)))
      else ret ())"
  by (rule ext, subst uart_read_variable_msg_loop.simps)
     (simp add: bnd_def ret_def put_def split: sum.splits prod.splits)

lemma untouched_uart_read_variable_msg_loop [simp]:
  "untouched s (final (uart_read_variable_msg_loop i len s))"
proof (induction "len - i" arbitrary: i s)
  case 0
  then show ?case by (subst uart_read_variable_msg_loop_unfold) simp
next
  case (Suc n)
  then have "n = len - Suc i" by simp
  then show ?case
    by (subst uart_read_variable_msg_loop_unfold)
       (auto intro!: untouched_bnd untouched_put Suc.hyps(1) split: prod.splits
             simp del: fun_upd_apply)
qed

lemma in_bounds_uart_read_variable_msg_loop [simp]:
  "in_bounds (uart_read_variable_msg_loop i len s)"
proof (induction "len - i" arbitrary: i s)
  case 0
  then show ?case by (subst uart_read_variable_msg_loop_unfold) simp
next
  case (Suc n)
  then have "n = len - Suc i" by simp
  then show ?case
    by (subst uart_read_variable_msg_loop_unfold)
       (auto intro!: in_bounds_bnd Suc.hyps(1) split: prod.splits simp del: fun_upd_apply)
qed

lemma untouched_uart_read_variable_msg [simp]:
  "untouched s (final (uart_read_variable_msg u len s))"
  by (simp add: uart_read_variable_msg_def)

lemma in_bounds_uart_read_variable_msg [simp]: "in_bounds (uart_read_variable_msg u len s)"
  by (simp add: uart_read_variable_msg_def)

lemma untouched_gcm [simp]: "untouched s (final (gcm_decrypt_and_verify p n s))"
  unfolding gcm_decrypt_and_verify_def Let_def
  by (auto intro!: untouched_bnd intro: untouched_trans [OF untouched_data_upd untouched_send_err])

lemma in_bounds_gcm [simp]: "in_bounds (gcm_decrypt_and_verify p n s)"
  unfolding gcm_decrypt_and_verify_def Let_def
  by (auto intro!: in_bounds_bnd)

lemma untouched_data_write [simp]: "untouched s (final (data_write i b s))"
  by (simp add: data_write_def)

lemma in_bounds_data_write [simp]: "in_bounds (data_write i b s) \<longleftrightarrow> i < DATA_SIZE"
  by (simp add: data_write_def)

lemma data_store_unfold:
  "data_store i n off src =
     (if i < n then bnd (data_write (off + i) (src i)) (\<lambda>u. data_store (Suc i) n off src)
      else ret ())"
  by (rule ext, subst data_store.simps) (simp add: bnd_def ret_def split: sum.splits prod.splits)

lemma untouched_data_store [simp]: "untouched s (final (data_store i n off src s))"
proof (induction "n - i" arbitrary: i s)
  case 0
  then show ?case by (subst data_store_unfold) simp
next
  case (Suc k)
  then have "k = n - Suc i" by simp
  then show ?case
    by (subst data_store_unfold) (auto intro!: untouched_bnd Suc.hyps(1))
qed

lemma in_bounds_data_store:
  "off + n \<le> DATA_SIZE \<Longrightarrow> in_bounds (data_store i n off src s)"
proof (induction "n - i" arbitrary: i s)
  case 0
  then show ?case by (subst data_store_unfold) simp
next
  case (Suc k)
  then have "k = n - Suc i" by simp
  then show ?case using Suc.prems
    by (subst data_store_unfold) (auto intro!: in_bounds_bnd Suc.hyps(1))
qed

lemma read_frame_unfold:
  "read_frame i frame_length index fw_size bytes_recieved =
     (if i < unat frame_length \<and> i < FLASH_PAGESIZE then
        bnd (uart_read UART1) (\<lambda>(b, rd).
        bnd (data_write (FLASH_PAGESIZE * unat index + i) b) (\<lambda>u.
        bnd (check_read rd) (\<lambda>c.
          if unat (bytes_recieved + 1) > unat fw_size then send_err
          else read_frame (Suc i) frame_length index fw_size (bytes_recieved + 1))))
      else ret (i, bytes_recieved))"
  by (rule ext, subst read_frame.simps) (simp add: bnd_def ret_def split: sum.splits prod.splits)

lemma untouched_read_frame [simp]:
  "untouched s (final (read_frame i frame_length index fw_size bytes_recieved s))"
proof (induction "unat frame_length - i" arbitrary: i bytes_recieved s)
  case 0
  then show ?case by (subst read_frame_unfold) simp
next
  case (Suc k)
  then have "k = unat frame_length - Suc i" by simp
  then show ?case
    by (subst read_frame_unfold) (auto intro!: untouched_bnd Suc.hyps(1) split: prod.splits)
qed

lemma in_bounds_read_frame:
  "FLASH_PAGESIZE * unat index + FLASH_PAGESIZE \<le> DATA_SIZE \<Longrightarrow>
     in_bounds (read_frame i frame_length index fw_size bytes_recieved s)"
proof (induction "unat frame_length - i" arbitrary: i bytes_recieved s)
  case 0
  then show ?case by (subst read_frame_unfold) simp
next
  case (Suc k)
  then have "k = unat frame_length - Suc i" by simp
  then show ?case using Suc.prems
    by (subst read_frame_unfold) (auto intro!: in_bounds_bnd Suc.hyps(1) split: prod.splits)
qed

lemma read_frame_count:
  "read_frame i frame_length index fw_size bytes_recieved s = Inr ((i', br'), s') \<Longrightarrow>
     i' = max i (min (unat frame_length) FLASH_PAGESIZE)"
proof (induction "unat frame_length - i" arbitrary: i bytes_recieved s)
  case 0
  then show ?case by (subst (asm) read_frame_unfold) (auto simp: ret_def split: if_splits)
next
  case (Suc k)
  then have k: "k = unat frame_length - Suc i" by simp
  from Suc.prems show ?case
    apply (subst (asm) read_frame_unfold)
    apply (auto simp: ret_def bnd_Inr_iff split: if_splits dest!: Suc.hyps(1) [OF k])
    done
qed

lemma untouched_Inl: "untouched s (final r) \<Longrightarrow> r = Inl (h, s1) \<Longrightarrow> untouched s s1"
  by simp

lemma untouched_Inr: "untouched s (final r) \<Longrightarrow> r = Inr (a, s1) \<Longrightarrow> untouched s s1"
  by simp

lemma untouched_stored_version: "untouched s s' \<Longrightarrow> stored_version s' = stored_version s"
  by (simp add: untouched_def stored_version_def)

lemma untouched_load_firmware_metadata [simp]:
  "untouched s (final (load_firmware_metadata p s))"
  unfolding load_firmware_metadata_def Let_def
  by (auto intro!: untouched_bnd)

lemma in_bounds_load_firmware_metadata [simp]: "in_bounds (load_firmware_metadata p s)"
  unfolding load_firmware_metadata_def Let_def
  by (auto intro!: in_bounds_bnd)

lemma load_firmware_metadata_Inr:
  assumes "load_firmware_metadata p s = Inr ((metadata, version, fw_size, r_msg_size, frame_number), s1)"
  shows "frame_number = frame_number_of p fw_size \<and> unat fw_size \<le> FW_MAX_SIZE
         \<and> unat r_msg_size \<le> RELEASE_MAX_SIZE
         \<and> version = u16_of (metadata 0) (metadata 1)
         \<and> fw_size = u16_of (metadata 2) (metadata 3)
         \<and> r_msg_size = u16_of (metadata 4) (metadata 5)
         \<and> (version = 0 \<or> stored_version s \<le> version)"
proof -
  from assms obtain md s2 r s3 where
    a: "uart_read_variable UART1 (\<lambda>i. 0) FW_METADATA_SIZE s = Inr (md, s2)"
    and b: "sha_hmac p (bytes_of md 0 FW_METADATA_SIZE) s2 = Inr (r, s3)"
    and c: "(let version = u16_of (md 0) (md 1);
           fw_size = u16_of (md 2) (md 3);
           r_msg_size = u16_of (md 4) (md 5);
           frame_number = frame_number_of p fw_size;
           old_version = stored_version s3
       in if version \<noteq> 0 \<and> version < old_version then send_err s3
          else if unat fw_size > FW_MAX_SIZE then send_err s3
          else if unat r_msg_size > RELEASE_MAX_SIZE then send_err s3
          else Inr ((md, version, fw_size, r_msg_size, frame_number),
                    uart_write UART1 OK s3))
         = Inr ((metadata, version, fw_size, r_msg_size, frame_number), s1)"
    unfolding load_firmware_metadata_def by (auto simp: bnd_Inr_iff)
  have "untouched s s2" using untouched_Inr [OF untouched_uart_read_variable a] .
  moreover have "untouched s2 s3" using untouched_Inr [OF untouched_sha_hmac b] .
  ultimately have v: "stored_version s3 = stored_version s"
    by (metis untouched_stored_version untouched_trans)
  from c show ?thesis
    unfolding Let_def v by (auto split: if_splits)
qed

lemma untouched_load_firmware_frame [simp]:
  "untouched s (final (load_firmware_frame p version fw_size frame_number index_check bytes_recieved s))"
  unfolding load_firmware_frame_def Let_def
  by (auto intro!: untouched_bnd untouched_put split: prod.splits)

lemma in_bounds_load_firmware_frame:
  assumes "unat frame_number < 30"
  shows "in_bounds (load_firmware_frame p version fw_size frame_number index_check bytes_recieved s)"
  unfolding load_firmware_frame_def Let_def
  using assms
  by (auto intro!: in_bounds_bnd in_bounds_data_store in_bounds_read_frame
           split: prod.splits dest!: read_frame_count simp: not_less word_le_nat_alt)

lemma load_firmware_frames_unfold:
  "load_firmware_frames p version fw_size frame_number index_check bytes_recieved =
     bnd (load_firmware_frame p version fw_size frame_number index_check bytes_recieved)
       (\<lambda>(brk, index_check', bytes_recieved').
          if brk then ret bytes_recieved'
          else load_firmware_frames p version fw_size frame_number index_check' bytes_recieved')"
  by (rule ext, subst load_firmware_frames.simps)
     (simp add: bnd_def ret_def split: sum.splits prod.splits)

lemma frames_measure:
  assumes "load_firmware_frame p version fw_size frame_number index_check bytes_recieved s
             = Inr ((False, ic', br'), s')"
  shows "unat frame_number - unat ic' < unat frame_number - unat index_check"
proof -
  from load_firmware_frame_Inr [OF assms]
  have le: "index_check \<le> frame_number" and ic: "ic' = index_check + 1"
    and ne: "index_check \<noteq> frame_number"
    by auto
  have "unat ic' = Suc (unat index_check)"
    using unat_succ_below [OF le ne] ic by simp
  moreover have "unat index_check < unat frame_number"
    using le ne by (rule unat_lt16)
  ultimately show ?thesis by simp
qed

lemma frames_induct:
  assumes step: "\<And>index_check bytes_recieved s.
     (\<And>ic' br' s'.
        load_firmware_frame p version fw_size frame_number index_check bytes_recieved s
          = Inr ((False, ic', br'), s') \<Longrightarrow> P ic' br' s')
     \<Longrightarrow> P index_check bytes_recieved s"
  shows "P index_check bytes_recieved s"
proof (induction "unat frame_number - unat index_check" arbitrary: index_check bytes_recieved s
       rule: less_induct)
  case (less index_check bytes_recieved s)
  show ?case
    by (rule step) (blast intro: less.hyps frames_measure)
qed

lemma untouched_load_firmware_frames [simp]:
  "untouched s (final (load_firmware_frames p version fw_size frame_number index_check bytes_recieved s))"
proof (induction index_check bytes_recieved s rule: frames_induct [of p version fw_size frame_number])
  case (1 index_check bytes_recieved s)
  show ?case
    by (subst load_firmware_frames_unfold)
       (auto intro!: untouched_bnd "1" split: prod.splits)
qed

lemma in_bounds_load_firmware_frames:
  assumes "unat frame_number < 30"
  shows "in_bounds (load_firmware_frames p version fw_size frame_number index_check bytes_recieved s)"
proof (induction index_check bytes_recieved s rule: frames_induct [of p version fw_size frame_number])
  case (1 index_check bytes_recieved s)
  show ?case
    by (subst load_firmware_frames_unfold)
       (auto intro!: in_bounds_bnd "1" in_bounds_load_firmware_frame [OF assms] split: prod.splits)
qed

lemma untouched_load_firmware_verify [simp]:
  "untouched s (final (load_firmware_verify p metadata fw_size r_msg_size bytes_recieved s))"
  unfolding load_firmware_verify_def
  by (auto intro!: untouched_bnd untouched_put)

lemma in_bounds_load_firmware_verify:
  assumes "unat fw_size \<le> FW_MAX_SIZE" "unat r_msg_size \<le> RELEASE_MAX_SIZE"
  shows "in_bounds (load_firmware_verify p metadata fw_size r_msg_size bytes_recieved s)"
  unfolding load_firmware_verify_def
  using assms
  by (auto intro!: in_bounds_bnd in_bounds_data_store)

lemma frame_number_of_bound:
  assumes "fw_size \<noteq> 0" "unat fw_size \<le> FW_MAX_SIZE"
  shows "unat (frame_number_of p fw_size) < 30"
proof -
  have "(unat fw_size + 1023) div 1024 - 1 < 30" using assms(2) by simp
  moreover have "unat (word_of_nat ((unat fw_size + 1023) div 1024 - 1) :: 16 word)
                   \<le> (unat fw_size + 1023) div 1024 - 1"
    by (simp add: unat_of_nat)
  ultimately show ?thesis using assms(1) by (simp add: frame_number_of_def)
qed

lemma untouched_load_firmware_precommit [simp]:
  "untouched s (final (load_firmware_precommit p s))"
  unfolding load_firmware_precommit_def
  by (auto intro!: untouched_bnd untouched_put split: prod.splits)

definition le16 :: "byte list \<Rightarrow> nat \<Rightarrow> 16 word" where
  "le16 bs k = u16_of (bs ! k) (bs ! Suc k)"

lemma ok_bytes_append [simp]: "ok_bytes (xs @ ys) = ok_bytes xs @ ok_bytes ys"
  by (simp add: ok_bytes_def)

lemma rx_upd_upd [simp]: "s\<lparr>rx := f\<rparr>\<lparr>rx := g\<rparr> = s\<lparr>rx := g\<rparr>"
  by simp

lemma load_firmware_metadata_exec:
  assumes rx: "rx s UART1 = ok_bytes md @ ok_bytes mac @ rest"
    and len: "length md = 6" "length mac = 32"
  shows "load_firmware_metadata p s =
     (let s1 = s\<lparr>rx := (rx s)(UART1 := rest)\<rparr> in
      if \<not> (\<forall>k<32. mac ! k = buf_of_list (hmac_sha256 p md) k) then send_err s1
      else if le16 md 0 \<noteq> 0 \<and> le16 md 0 < stored_version s then send_err s1
      else if unat (le16 md 2) > FW_MAX_SIZE then send_err s1
      else if unat (le16 md 4) > RELEASE_MAX_SIZE then send_err s1
      else Inr ((buf_of_list md, le16 md 0, le16 md 2, le16 md 4, frame_number_of p (le16 md 2)),
                uart_write UART1 OK s1))"
proof -
  let ?s0 = "s\<lparr>rx := (rx s)(UART1 := ok_bytes mac @ rest)\<rparr>"
  let ?s1 = "s\<lparr>rx := (rx s)(UART1 := rest)\<rparr>"
  have rd: "uart_read_variable UART1 (\<lambda>i. 0) 6 s = Inr (buf_of_list md, ?s0)"
    by (rule uart_read_variable_ok [OF rx]) (use len in simp_all)
  have rx0: "rx ?s0 UART1 = ok_bytes mac @ rest" by simp
  have st: "?s0\<lparr>rx := (rx ?s0)(UART1 := rest)\<rparr> = ?s1" by simp
  have b: "bytes_of (buf_of_list md) 0 6 = md"
    using bytes_of_buf_of_list [of md] len by simp
  have mac: "sha_hmac p md ?s0 =
           (if \<forall>k<32. mac ! k = buf_of_list (hmac_sha256 p md) k
            then Inr (32, ?s1) else send_err ?s1)"
    using sha_hmac_ok [OF rx0 len(2), of p md] unfolding st .
  have f: "\<And>k. k < 6 \<Longrightarrow> buf_of_list md k = md ! k"
    using len by (simp add: buf_of_list_def)
  have sv: "stored_version ?s1 = stored_version s" by (simp add: stored_version_def)
  show ?thesis
    unfolding load_firmware_metadata_def
    by (simp add: bnd_def rd b mac Let_def f le16_def sv send_err_def)
qed

lemma flash_firmware_unfold:
  "flash_firmware i page_addr fw_size s =
     (if i < unat fw_size then
        (let frame_length = (word_of_nat (unat fw_size - i) :: 16 word);
             frame_length = (if unat frame_length > FLASH_PAGESIZE
                             then word_of_nat FLASH_PAGESIZE else frame_length);
             rs = program_flash page_addr (\<lambda>k. data s (i + k)) (unat frame_length) s
         in if fst rs \<noteq> 0 then send_err (snd rs)
            else flash_firmware (i + FLASH_PAGESIZE) (page_addr + FLASH_PAGESIZE) fw_size (snd rs))
      else Inr ((), s))"
  by (subst flash_firmware.simps) (simp add: Let_def split_beta)

lemma in_bounds_flash_firmware [simp]: "in_bounds (flash_firmware i page_addr fw_size s)"
proof (induction "unat fw_size - i" arbitrary: i page_addr s rule: less_induct)
  case less
  show ?case
    by (subst flash_firmware_unfold) (auto simp: Let_def intro!: less.hyps)
qed

lemma in_bounds_load_firmware_commit [simp]:
  "in_bounds (load_firmware_commit metadata version fw_size r_msg_size s)"
  unfolding load_firmware_commit_def
  by (auto intro!: in_bounds_bnd simp: Let_def split_beta)

lemma print_bolt_rx [simp]: "rx (print_bolt s) = rx s"
  by (simp add: print_bolt_def uart_write_str_def Let_def)

lemma print_bolt_flash [simp]: "flash (print_bolt s) = flash s" "flash_log (print_bolt s) = flash_log s"
  "flash_rets (print_bolt s) = flash_rets s"
  using untouched_print_bolt [of s] by (simp_all add: untouched_def)

lemma print_bolt_tx1 [simp]: "tx (print_bolt s) UART1 = tx s UART1"
  by (simp add: print_bolt_def uart_write_str_def Let_def)

lemma print_bolt_stored_version [simp]: "stored_version (print_bolt s) = stored_version s"
  by (simp add: stored_version_def)

lemma load_firmware_Inl:
  "load_firmware_precommit p s = Inl e \<Longrightarrow> load_firmware p s = Inl e"
  by (simp add: load_firmware_def bnd_def)

lemma load_firmware_precommit_Inl:
  "load_firmware_metadata p (print_bolt s) = Inl e \<Longrightarrow> load_firmware_precommit p s = Inl e"
  by (simp add: load_firmware_precommit_def bnd_def put_def)

lemma send_err_final [simp]:
  "tx (final (send_err s)) UART1 = tx s UART1 @ [ERROR]"
  "flash (final (send_err s)) = flash s"
  "flash_log (final (send_err s)) = flash_log s"
  by (simp_all add: send_err_def uart_write_def uart_write_str_def)

lemma load_firmware_precommit_reject:
  assumes rx: "rx s UART1 = ok_bytes md @ ok_bytes mac @ rest"
    and len: "length md = 6" "length mac = 32"
    and bad: "(le16 md 0 \<noteq> 0 \<and> le16 md 0 < stored_version s) \<or> unat (le16 md 2) > FW_MAX_SIZE
              \<or> unat (le16 md 4) > RELEASE_MAX_SIZE"
  shows "load_firmware_precommit p s = send_err ((print_bolt s)\<lparr>rx := (rx s)(UART1 := rest)\<rparr>)"
proof -
  have rx': "rx (print_bolt s) UART1 = ok_bytes md @ ok_bytes mac @ rest"
    using rx by simp
  have "load_firmware_metadata p (print_bolt s)
          = send_err ((print_bolt s)\<lparr>rx := (rx s)(UART1 := rest)\<rparr>)"
    using bad by (auto simp: load_firmware_metadata_exec [OF rx' len] Let_def)
  then show ?thesis
    by (simp add: send_err_def load_firmware_precommit_Inl)
qed

lemma load_firmware_metadata_reject:
  assumes rx: "rx s UART1 = ok_bytes md @ ok_bytes mac @ rest"
    and len: "length md = 6" "length mac = 32"
    and bad: "(le16 md 0 \<noteq> 0 \<and> le16 md 0 < stored_version s) \<or> unat (le16 md 2) > FW_MAX_SIZE
              \<or> unat (le16 md 4) > RELEASE_MAX_SIZE"
  shows "load_firmware p s = send_err ((print_bolt s)\<lparr>rx := (rx s)(UART1 := rest)\<rparr>)"
  using load_firmware_precommit_reject [OF assms, of p]
  by (simp add: send_err_def load_firmware_Inl)

definition flash_v :: "byte \<Rightarrow> nat \<Rightarrow> byte" where
  "flash_v v = (\<lambda>a. if a = METADATA_BASE then v else 0)"

definition upload :: "byte list \<Rightarrow> byte \<Rightarrow> state" where
  "upload bs v = device (ok_bytes bs) [] (flash_v v)"

lemma upload_simps [simp]:
  "rx (upload bs v) UART1 = ok_bytes bs" "tx (upload bs v) u = []"
  "stored_version (upload bs v) = ucast v" "flash (upload bs v) = flash_v v"
  "flash_log (upload bs v) = []"
  by (simp_all add: upload_def device_def stored_version_def flash_v_def)

lemma le16_simps [simp]:
  "le16 (a # b # bs) 0 = u16_of a b"
  "le16 (a # b # c # d # bs) 2 = u16_of c d"
  "le16 (a # b # c # d # e # f # bs) 4 = u16_of e f"
  by (simp_all add: le16_def numeral_2_eq_2 eval_nat_numeral)

definition happy_input :: "byte list" where
  "happy_input =
     [3, 0, 5, 0, 2, 0] @ toy_mac [3, 0, 5, 0, 2, 0]
     @ [0, 0, 5, 0, 3, 0] @ toy_mac [0, 0, 5, 0, 3, 0]
     @ [1, 2, 3, 4, 5] @ toy_mac ([1, 2, 3, 4, 5] @ [0, 0, 5, 0, 3, 0])
     @ toy_mac [1, 2, 3, 4, 5]
     @ [0x68, 0x69] @ toy_mac [0x68, 0x69]
     @ toy_mac ([1, 2, 3, 4, 5] @ [3, 0, 5, 0, 2, 0] @ [0x68, 0x69])
     @ replicate 16 1 @ replicate 16 31"

subsection \<open>Rejections\<close>

text \<open>
  \<open>no_ack s r\<close>: the run \<open>r\<close> from \<open>s\<close> wrote nothing to the host but, when it
  ended in a reset, the error byte.
\<close>

lemma load_firmware_frame_reject:
  assumes rx: "rx s UART1 = ok_bytes fm @ ok_bytes mac @ rest"
    and len: "length fm = 6" "length mac = 32"
    and bad: "le16 fm 0 \<noteq> index_check \<or> le16 fm 0 > frame_number
              \<or> unat (le16 fm 2) > FLASH_PAGESIZE \<or> version \<noteq> le16 fm 4 \<or> le16 fm 4 = 1"
  shows "load_firmware_frame p version fw_size frame_number index_check bytes_recieved s
           = send_err (s\<lparr>rx := (rx s)(UART1 := rest)\<rparr>)"
proof -
  let ?s0 = "s\<lparr>rx := (rx s)(UART1 := ok_bytes mac @ rest)\<rparr>"
  let ?s1 = "s\<lparr>rx := (rx s)(UART1 := rest)\<rparr>"
  have rd: "uart_read_variable UART2 (\<lambda>i. 0) 6 s = Inr (buf_of_list fm, ?s0)"
    by (rule uart_read_variable_ok [OF rx]) (use len in simp_all)
  have rx0: "rx ?s0 UART1 = ok_bytes mac @ rest" by simp
  have st: "?s0\<lparr>rx := (rx ?s0)(UART1 := rest)\<rparr> = ?s1" by simp
  have b: "bytes_of (buf_of_list fm) 0 6 = fm"
    using bytes_of_buf_of_list [of fm] len by simp
  have mac: "sha_hmac p fm ?s0 =
           (if \<forall>k<32. mac ! k = buf_of_list (hmac_sha256 p fm) k
            then Inr (32, ?s1) else send_err ?s1)"
    using sha_hmac_ok [OF rx0 len(2), of p fm] unfolding st .
  have f: "\<And>k. k < 6 \<Longrightarrow> buf_of_list fm k = fm ! k"
    using len by (simp add: buf_of_list_def)
  show ?thesis
    unfolding load_firmware_frame_def
    using bad
    by (auto simp: bnd_def rd b mac Let_def f le16_def send_err_def)
qed

lemma load_firmware_frame_version_1:
  "load_firmware_frame p 1 fw_size frame_number index_check bytes_recieved s \<noteq> Inr x"
  unfolding load_firmware_frame_def Let_def
  by (auto simp: bnd_Inr_iff)

lemma load_firmware_frames_version_1:
  "load_firmware_frames p 1 fw_size frame_number index_check bytes_recieved s \<noteq> Inr x"
  by (subst load_firmware_frames_unfold) (auto simp: bnd_Inr_iff load_firmware_frame_version_1)

lemma read_frame_overrun:
  assumes "i < unat frame_length" "i < FLASH_PAGESIZE" "rx s UART1 = (b, ok) # rest"
    and "FLASH_PAGESIZE * unat index + i < DATA_SIZE"
    and "unat (bytes_recieved + 1) > unat fw_size"
  shows "read_frame i frame_length index fw_size bytes_recieved s
           = send_err (s\<lparr>rx := (rx s)(UART1 := rest),
                         data := (data s)(FLASH_PAGESIZE * unat index + i := b)\<rparr>)"
  using assms
  by (subst read_frame.simps)
     (simp add: uart_read_def data_write_def check_read_def send_err_def)

definition no_ack :: "state \<Rightarrow> 'a result \<Rightarrow> bool" where
  "no_ack s r =
     (case r of
        Inl (h, s') \<Rightarrow> tx s' UART1 = tx s UART1 @ (if h = Reset then [ERROR] else [])
      | Inr (a, s') \<Rightarrow> tx s' UART1 = tx s UART1)"

lemma no_ack_simps [simp]:
  "no_ack s (Inl (h, s')) \<longleftrightarrow> tx s' UART1 = tx s UART1 @ (if h = Reset then [ERROR] else [])"
  "no_ack s (Inr (a, s')) \<longleftrightarrow> tx s' UART1 = tx s UART1"
  by (simp_all add: no_ack_def)

lemma no_ack_bnd:
  assumes "no_ack s (m s)" and "\<And>a s1. m s = Inr (a, s1) \<Longrightarrow> no_ack s1 (f a s1)"
  shows "no_ack s (bnd m f s)"
proof (cases "m s")
  case (Inl e)
  then show ?thesis using assms(1) by (cases e) (simp add: bnd_def)
next
  case (Inr x)
  obtain a s1 where x: "x = (a, s1)" by (cases x)
  have t: "tx s1 UART1 = tx s UART1" using assms(1) Inr x by simp
  have "no_ack s1 (f a s1)" using assms(2) Inr x by simp
  then have "no_ack s (f a s1)" unfolding no_ack_def t .
  then show ?thesis using Inr x by (simp add: bnd_def)
qed

lemma no_ack_uart_read [simp]: "no_ack s (uart_read u s)"
  by (simp add: uart_read_def split: list.splits)

lemma no_ack_send_err [simp]: "no_ack s (send_err s)"
  by (simp add: send_err_def uart_write_def uart_write_str_def)

lemma no_ack_check_read [simp]: "no_ack s (check_read rd s)"
  by (simp add: check_read_def)

lemma no_ack_ret [simp]: "no_ack s (ret a s)"
  by (simp add: ret_def)

lemma no_ack_uart_read_variable_loop [simp]:
  "no_ack s (uart_read_variable_loop i da len s)"
proof (induction "len - i" arbitrary: i da s)
  case 0
  then show ?case by (subst uart_read_variable_loop_unfold) simp
next
  case (Suc n)
  then have "n = len - Suc i" by simp
  then show ?case
    by (subst uart_read_variable_loop_unfold)
       (auto intro!: no_ack_bnd Suc.hyps(1) split: prod.splits simp del: fun_upd_apply)
qed

lemma no_ack_uart_read_variable [simp]: "no_ack s (uart_read_variable u da len s)"
  by (simp add: uart_read_variable_def)

lemma no_ack_sha_hmac [simp]: "no_ack s (sha_hmac p msg s)"
  unfolding sha_hmac_def Let_def
  by (auto intro!: no_ack_bnd)

lemma no_ack_frame_version_1:
  "no_ack s (load_firmware_frame p 1 fw_size frame_number index_check bytes_recieved s)"
  unfolding load_firmware_frame_def Let_def
  by (auto intro!: no_ack_bnd)

lemma frames_version_1:
  "\<exists>h s'. load_firmware_frames p 1 fw_size frame_number index_check bytes_recieved s = Inl (h, s')
           \<and> untouched s s'
           \<and> tx s' UART1 = tx s UART1 @ (if h = Reset then [ERROR] else [])"
proof (cases "load_firmware_frame p 1 fw_size frame_number index_check bytes_recieved s")
  case (Inl e)
  obtain h s' where e: "e = (h, s')" by (cases e)
  have "load_firmware_frames p 1 fw_size frame_number index_check bytes_recieved s = Inl (h, s')"
    using Inl e by (subst load_firmware_frames_unfold) (simp add: bnd_def)
  moreover have "untouched s s'"
    using untouched_Inl [OF untouched_load_firmware_frame] Inl e by blast
  moreover have "tx s' UART1 = tx s UART1 @ (if h = Reset then [ERROR] else [])"
    using no_ack_frame_version_1 [of s p fw_size frame_number index_check bytes_recieved] Inl e
    by simp
  ultimately show ?thesis by blast
next
  case (Inr x)
  then show ?thesis using load_firmware_frame_version_1 by blast
qed

lemma load_firmware_version_1:
  assumes rx: "rx s UART1 = ok_bytes md @ ok_bytes mac @ rest"
    and len: "length md = 6" "length mac = 32"
    and v: "le16 md 0 = 1"
  shows "\<exists>h s'. load_firmware p s = Inl (h, s') \<and> flash s' = flash s \<and> flash_log s' = flash_log s
           \<and> (tx s' UART1 = tx s UART1 @ [ERROR]
                \<or> tx s' UART1 = tx s UART1 @ [OK] @ (if h = Reset then [ERROR] else []))"
proof -
  let ?s1 = "(print_bolt s)\<lparr>rx := (rx (print_bolt s))(UART1 := rest)\<rparr>"
  let ?s2 = "uart_write UART1 OK ?s1"
  have rx': "rx (print_bolt s) UART1 = ok_bytes md @ ok_bytes mac @ rest"
    using rx by simp
  have "load_firmware_metadata p (print_bolt s) = send_err ?s1
        \<or> load_firmware_metadata p (print_bolt s)
             = Inr ((buf_of_list md, 1, le16 md 2, le16 md 4, frame_number_of p (le16 md 2)), ?s2)"
    by (simp add: load_firmware_metadata_exec [OF rx' len] Let_def v)
  then show ?thesis
  proof
    assume "load_firmware_metadata p (print_bolt s) = send_err ?s1"
    then have "load_firmware p s = send_err ?s1"
      by (simp add: send_err_def load_firmware_Inl load_firmware_precommit_Inl)
    then show ?thesis
      by (simp add: send_err_def uart_write_def uart_write_str_def)
  next
    assume md: "load_firmware_metadata p (print_bolt s)
             = Inr ((buf_of_list md, 1, le16 md 2, le16 md 4, frame_number_of p (le16 md 2)), ?s2)"
    obtain h s' where
      fr: "load_firmware_frames p 1 (le16 md 2) (frame_number_of p (le16 md 2)) 0 0 ?s2 = Inl (h, s')"
      and un: "untouched ?s2 s'"
      and tx: "tx s' UART1 = tx ?s2 UART1 @ (if h = Reset then [ERROR] else [])"
      using frames_version_1 by blast
    have "load_firmware_precommit p s = Inl (h, s')"
      using fr
      by (simp add: load_firmware_precommit_def bnd_def [of "put print_bolt"] put_def
                    bnd_def [of "load_firmware_metadata p"] md
                    bnd_def [of "load_firmware_frames p 1 (le16 md 2) (frame_number_of p (le16 md 2)) 0 0"])
    then have "load_firmware p s = Inl (h, s')" by (rule load_firmware_Inl)
    moreover have "flash s' = flash s" "flash_log s' = flash_log s"
      using un by (simp_all add: untouched_def uart_write_def)
    moreover have "tx s' UART1 = tx s UART1 @ [OK] @ (if h = Reset then [ERROR] else [])"
      using tx by (simp add: uart_write_def)
    ultimately show ?thesis by blast
  qed
qed

subsection \<open>The pages that are programmed\<close>

text \<open>
  \<open>call_addr\<close> is the address a driver call was given. A call of \<open>program_flash\<close> on
  a page changes no byte outside that page, and when it returns 0 the page starts with
  the bytes of \<open>src\<close>. \<open>returned r\<close>: the run came back to its caller.
\<close>

fun call_addr :: "flash_call \<Rightarrow> nat" where
  "call_addr (Erased a) = a"
| "call_addr (Programmed a bs r) = a"

lemma page_of_aligned:
  assumes "(pa :: nat) mod 1024 = 0"
  shows "a div 1024 = pa div 1024 \<longleftrightarrow> pa \<le> a \<and> a < pa + 1024"
proof -
  obtain q where q: "pa = 1024 * q" using assms by (auto simp: mod_eq_0_iff_dvd elim: dvdE)
  show ?thesis unfolding q by auto
qed

lemma FlashProgram_flash:
  "flash (snd (FlashProgram bs addr s)) a =
     (if next_ret (flash_rets s) = 0 \<and> addr \<le> a \<and> a < addr + length bs
      then flash s a AND bs ! (a - addr) else flash s a)"
  by (simp add: FlashProgram_def Let_def)

lemma FlashProgram_fst: "fst (FlashProgram bs addr s) = next_ret (flash_rets s)"
  by (simp add: FlashProgram_def Let_def)

lemma FlashProgram_rets: "flash_rets (snd (FlashProgram bs addr s)) = tl (flash_rets s)"
  by (simp add: FlashProgram_def Let_def)

lemma FlashErase_flash:
  "flash (FlashErase addr s) a = (if a div 1024 = addr div 1024 then 0xFF else flash s a)"
  by (simp add: FlashErase_def)

lemma FlashErase_rets [simp]: "flash_rets (FlashErase addr s) = flash_rets s"
  by (simp add: FlashErase_def)

lemma byte_ff_and [simp]: "(0xFF :: byte) AND x = x"
proof -
  have "(0xFF :: byte) = - 1" by simp
  then show ?thesis by (simp only: and.left_neutral)
qed

lemma padded_last_word_nth:
  "k < 4 \<Longrightarrow> padded_last_word src nfb rem ! k = (if k < rem then src (nfb + k) else 0xFF)"
  by (auto simp: padded_last_word_def bytes_of_def nth_append)

lemma padded_last_word_length [simp]: "rem \<le> 4 \<Longrightarrow> length (padded_last_word src nfb rem) = 4"
  by (simp add: padded_last_word_def bytes_of_def)

lemma bytes_of_length [simp]: "length (bytes_of b off n) = n"
  by (simp add: bytes_of_def)

lemma bytes_of_nth [simp]: "k < n \<Longrightarrow> bytes_of b off n ! k = b (off + k)"
  by (simp add: bytes_of_def)

lemma program_flash_frame:
  assumes al: "pa mod 1024 = 0" and len: "len \<le> 1024" and out: "a < pa \<or> pa + 1024 \<le> a"
  shows "flash (snd (program_flash pa src len s)) a = flash s a"
proof (cases "len mod FLASH_WRITESIZE = 0")
  case True
  show ?thesis
    using out len page_of_aligned [OF al, of a]
    by (auto simp: program_flash_whole_words [OF True] FlashProgram_flash FlashErase_flash)
next
  case False
  have n: "len div 4 * 4 + 4 \<le> 1024"
    using False len unfolding FLASH_WRITESIZE_def by presburger
  show ?thesis
    using out n page_of_aligned [OF al, of a]
    by (auto simp: program_flash_partial_word [OF False] Let_def split_beta
                   FlashProgram_flash FlashErase_flash)
qed

lemma program_flash_content:
  assumes al: "pa mod 1024 = 0" and len: "len \<le> 1024"
    and ok: "fst (program_flash pa src len s) = 0" and j: "j < len"
  shows "flash (snd (program_flash pa src len s)) (pa + j) = src j"
proof (cases "len mod FLASH_WRITESIZE = 0")
  case True
  have pg: "(pa + j) div 1024 = pa div 1024"
    using page_of_aligned [OF al, of "pa + j"] j len by simp
  show ?thesis
    using ok j pg
    by (simp add: program_flash_whole_words [OF True] FlashProgram_flash FlashErase_flash
                  FlashProgram_fst)
next
  case False
  let ?n = "len div 4 * 4"
  let ?r = "len mod 4"
  have r: "0 < ?r" "?r < 4" using False by simp_all
  have n: "?n + ?r = len" by simp
  have pg: "(pa + j) div 1024 = pa div 1024"
    using page_of_aligned [OF al, of "pa + j"] j len by simp
  have ok1: "next_ret (flash_rets s) = 0" and ok2: "next_ret (tl (flash_rets s)) = 0"
    using ok
    by (auto simp: program_flash_partial_word [OF False] Let_def split_beta FlashProgram_fst
                   FlashProgram_rets split: if_splits)
  show ?thesis
  proof (cases "j < ?n")
    case True
    then show ?thesis
      using ok1 ok2 pg r
      by (simp add: program_flash_partial_word [OF False] Let_def split_beta FlashProgram_fst
                    FlashProgram_rets FlashProgram_flash FlashErase_flash)
  next
    case f: False
    then have k: "j - ?n < ?r" "?n \<le> j" "j < ?n + 4" using j n r by linarith+
    then show ?thesis
      using ok1 ok2 pg r j
      by (simp add: program_flash_partial_word [OF False] Let_def split_beta FlashProgram_fst
                    FlashProgram_rets FlashProgram_flash FlashErase_flash padded_last_word_nth)
  qed
qed

definition returned :: "'a result \<Rightarrow> bool" where
  "returned r = (case r of Inl e \<Rightarrow> False | Inr x \<Rightarrow> True)"

lemma returned_simps [simp]: "returned (Inr x)" "\<not> returned (Inl e)" "\<not> returned (send_err s)"
  by (simp_all add: returned_def send_err_def)

lemma program_flash_ram [simp]:
  "data (snd (program_flash pa src len s)) = data s"
  "fw_release_message (snd (program_flash pa src len s)) = fw_release_message s"
  "rx (snd (program_flash pa src len s)) = rx s"
  "tx (snd (program_flash pa src len s)) = tx s"
  by (simp_all add: program_flash_def FlashErase_def FlashProgram_def Let_def split_beta)

lemma send_err_ram [simp]:
  "data (final (send_err s)) = data s"
  "fw_release_message (final (send_err s)) = fw_release_message s"
  by (simp_all add: send_err_def uart_write_def uart_write_str_def)

lemma page_len:
  "unat (if 1024 < unat (word_of_nat (unat (sz :: 16 word) - i) :: 16 word)
         then word_of_nat 1024 else (word_of_nat (unat sz - i) :: 16 word))
     = min 1024 (unat sz - i)"
proof -
  have "unat sz - i < 2 ^ 16"
    using unsigned_less [of sz, where ?'a = nat] by simp
  then have "unat (word_of_nat (unat sz - i) :: 16 word) = unat sz - i"
    by (simp add: unat_of_nat)
  then show ?thesis by (simp add: unat_of_nat)
qed

lemma flash_firmware_step:
  "flash_firmware i page_addr fw_size s =
     (if i < unat fw_size then
        (let rs = program_flash page_addr (\<lambda>k. data s (i + k)) (min 1024 (unat fw_size - i)) s
         in if fst rs \<noteq> 0 then send_err (snd rs)
            else flash_firmware (i + 1024) (page_addr + 1024) fw_size (snd rs))
      else Inr ((), s))"
proof -
  have l: "unat (if unat (word_of_nat (unat fw_size - i) :: 16 word) > FLASH_PAGESIZE
                 then word_of_nat FLASH_PAGESIZE else (word_of_nat (unat fw_size - i) :: 16 word))
             = min 1024 (unat fw_size - i)"
    unfolding FLASH_PAGESIZE_def by (rule page_len)
  show ?thesis
    by (subst flash_firmware_unfold) (simp only: Let_def FLASH_PAGESIZE_def page_len)
qed

lemma flash_firmware_spec:
  assumes "i mod 1024 = 0"
  shows "(\<forall>a. a < FW_BASE + i \<longrightarrow> flash (final (flash_firmware i (FW_BASE + i) fw_size s)) a = flash s a)
       \<and> data (final (flash_firmware i (FW_BASE + i) fw_size s)) = data s
       \<and> fw_release_message (final (flash_firmware i (FW_BASE + i) fw_size s)) = fw_release_message s
       \<and> (returned (flash_firmware i (FW_BASE + i) fw_size s) \<longrightarrow>
            (\<forall>j. i \<le> j \<and> j < unat fw_size \<longrightarrow>
                 flash (final (flash_firmware i (FW_BASE + i) fw_size s)) (FW_BASE + j) = data s j))"
  using assms
proof (induction "unat fw_size - i" arbitrary: i s rule: less_induct)
  case less
  show ?case
  proof (cases "i < unat fw_size")
    case False
    then have r: "flash_firmware i (FW_BASE + i) fw_size s = Inr ((), s)"
      by (subst flash_firmware_step) simp
    show ?thesis unfolding r using False by auto
  next
    case True
    let ?pa = "FW_BASE + i"
    let ?len = "min 1024 (unat fw_size - i)"
    let ?rs = "program_flash ?pa (\<lambda>k. data s (i + k)) ?len s"
    have al: "?pa mod 1024 = 0" using less.prems by (simp add: mod_add_eq [symmetric])
    have len: "?len \<le> 1024" by simp
    have fr: "flash (snd ?rs) a = flash s a" if "a < ?pa" for a
      by (rule program_flash_frame [OF al len]) (use that in simp)
    show ?thesis
    proof (cases "fst ?rs = 0")
      case False
      then have r: "flash_firmware i ?pa fw_size s = send_err (snd ?rs)"
        using True by (subst flash_firmware_step) (simp add: Let_def)
      show ?thesis unfolding r using fr by simp
    next
      case ok: True
      let ?r' = "flash_firmware (i + 1024) (FW_BASE + (i + 1024)) fw_size (snd ?rs)"
      have r: "flash_firmware i ?pa fw_size s = ?r'"
        using True ok by (subst flash_firmware_step) (simp add: Let_def add.assoc)
      have m: "unat fw_size - (i + 1024) < unat fw_size - i" using True by simp
      have al': "(i + 1024) mod 1024 = 0" using less.prems by simp
      note ih = less.hyps [OF m al', of "snd ?rs"]
      have ct: "flash (snd ?rs) (?pa + j) = data s (i + j)" if "j < ?len" for j
        using program_flash_content [OF al len ok that] by simp
      have a: "flash (final ?r') a = flash s a" if "a < ?pa" for a
        using ih fr [OF that] that by simp
      have d: "flash (final ?r') (FW_BASE + j) = data s j"
        if ret: "returned ?r'" and j: "i \<le> j" "j < unat fw_size" for j
      proof (cases "j < i + 1024")
        case True
        then have "j - i < 1024" "j - i < unat fw_size - i" using j by linarith+
        then have jl: "j - i < ?len" by simp
        have "flash (final ?r') (FW_BASE + j) = flash (snd ?rs) (FW_BASE + j)"
          using ih True by simp
        also have "\<dots> = data s j"
          using ct [OF jl] j by (simp add: add.assoc)
        finally show ?thesis .
      next
        case False
        then show ?thesis using ih ret j by simp
      qed
      show ?thesis
        unfolding r using a d ih by simp
    qed
  qed
qed


lemma load_firmware_precommit_Inr:
  assumes "load_firmware_precommit p s = Inr ((metadata, version, fw_size, r_msg_size), s1)"
  shows "unat r_msg_size \<le> 1024 \<and> unat fw_size \<le> 30720
       \<and> version = u16_of (metadata 0) (metadata 1)
       \<and> fw_size = u16_of (metadata 2) (metadata 3)
       \<and> flash s1 = flash s \<and> flash_log s1 = flash_log s \<and> flash_rets s1 = flash_rets s"
proof -
  have u: "untouched s s1"
    using untouched_Inr [OF untouched_load_firmware_precommit assms] .
  from assms obtain fn s2 where
    "load_firmware_metadata p (print_bolt s) = Inr ((metadata, version, fw_size, r_msg_size, fn), s2)"
    unfolding load_firmware_precommit_def
    by (auto simp: bnd_Inr_iff ret_def put_def split: prod.splits)
  from load_firmware_metadata_Inr [OF this] u show ?thesis
    by (auto simp: untouched_def)
qed

lemma load_firmware_precommit_fw_size:
  assumes run: "load_firmware_precommit p s = Inr ((metadata, version, fw_size, r_msg_size), s1)"
    and rx: "rx s UART1 = ok_bytes md @ rest" and len: "length md = 6"
  shows "fw_size = le16 md 2"
proof -
  have rx': "rx (print_bolt s) UART1 = ok_bytes md @ rest" using rx by simp
  have rd: "uart_read_variable UART1 (\<lambda>i. 0) 6 (print_bolt s)
              = Inr (buf_of_list md, (print_bolt s)\<lparr>rx := (rx (print_bolt s))(UART1 := rest)\<rparr>)"
    by (rule uart_read_variable_ok [OF rx']) (use len in simp_all)
  from run obtain fn s2 where
    m: "load_firmware_metadata p (print_bolt s) = Inr ((metadata, version, fw_size, r_msg_size, fn), s2)"
    unfolding load_firmware_precommit_def
    by (auto simp: bnd_Inr_iff ret_def put_def split: prod.splits)
  from m have "metadata = buf_of_list md"
    unfolding load_firmware_metadata_def
    by (auto simp: bnd_Inr_iff rd Let_def split: if_splits)
  moreover have "fw_size = u16_of (metadata 2) (metadata 3)"
    using load_firmware_metadata_Inr [OF m] by simp
  ultimately show ?thesis
    using len by (simp add: le16_def buf_of_list_def numeral_3_eq_3)
qed

lemma program_flash_log:
  "\<exists>cs. flash_log (snd (program_flash pa src len s)) = flash_log s @ cs
        \<and> list_all (\<lambda>c. pa \<le> call_addr c \<and> call_addr c \<le> pa + len) cs"
proof (cases "len mod FLASH_WRITESIZE = 0")
  case True
  show ?thesis
    by (simp add: program_flash_whole_words [OF True] FlashProgram_log FlashErase_log)
next
  case False
  have "len div 4 * 4 \<le> len" by simp
  then show ?thesis
    by (simp add: program_flash_partial_word [OF False] FlashProgram_log FlashErase_log
                  Let_def split_beta)
qed

lemma program_flash_metadata_log:
  assumes "fst (program_flash pa src 6 s) = 0"
  shows "flash_log (snd (program_flash pa src 6 s))
           = flash_log s @ [Erased pa, Programmed pa [src 0, src 1, src 2, src 3] 0,
                            Programmed (pa + 4) [src 4, src 5, 0xFF, 0xFF] 0]"
proof -
  have n: "(6 :: nat) mod FLASH_WRITESIZE \<noteq> 0" by simp
  have up: "[0..<4] = [0, 1, 2, 3]" "[4..<6] = [4, 5]"
    by (simp_all add: upt_rec)
  have ok1: "next_ret (flash_rets s) = 0" and ok2: "next_ret (tl (flash_rets s)) = 0"
    using assms
    by (auto simp: program_flash_partial_word [OF n] Let_def split_beta FlashProgram_fst
                   FlashProgram_rets split: if_splits)
  show ?thesis
    using ok1 ok2
    by (simp add: program_flash_partial_word [OF n] Let_def split_beta FlashProgram_fst
                  FlashProgram_rets FlashProgram_log FlashErase_log padded_last_word_def
                  bytes_of_def up replicate_small)
qed

lemma flash_firmware_log:
  "\<exists>cs. flash_log (final (flash_firmware i pa fw_size s)) = flash_log s @ cs"
proof (induction "unat fw_size - i" arbitrary: i pa s rule: less_induct)
  case less
  show ?case
  proof (cases "i < unat fw_size")
    case False
    then show ?thesis by (subst flash_firmware_step) simp
  next
    case True
    let ?rs = "program_flash pa (\<lambda>k. data s (i + k)) (min 1024 (unat fw_size - i)) s"
    obtain cs where cs: "flash_log (snd ?rs) = flash_log s @ cs"
      using program_flash_log [of pa _ _ s] by blast
    have m: "unat fw_size - (i + 1024) < unat fw_size - i" using True by simp
    obtain cs' where cs': "flash_log (final (flash_firmware (i + 1024) (pa + 1024) fw_size (snd ?rs)))
                             = flash_log (snd ?rs) @ cs'"
      using less.hyps [OF m] by blast
    show ?thesis
      using True cs cs'
      by (subst flash_firmware_step) (simp add: Let_def)
  qed
qed

text \<open>
  The commit, when it returns: the state after the firmware pages, the metadata as it
  is programmed, and the two page writes that follow.
\<close>

lemma load_firmware_commit_Inr:
  assumes "load_firmware_commit metadata version fw_size r_msg_size s = Inr ((), s')"
  obtains s2 m where
    "flash_firmware 0 FW_BASE fw_size s = Inr ((), s2)"
    "m = (if version = 0
          then metadata(0 := flash s2 METADATA_BASE, 1 := flash s2 (METADATA_BASE + 1))
          else metadata)"
    "fst (program_flash METADATA_BASE m 6 s2) = 0"
    "fst (program_flash RELEASE_BASE (fw_release_message s2) (unat r_msg_size)
            (snd (program_flash METADATA_BASE m 6 s2))) = 0"
    "s' = snd (program_flash RELEASE_BASE (fw_release_message s2) (unat r_msg_size)
                 (snd (program_flash METADATA_BASE m 6 s2)))"
  using assms
  unfolding load_firmware_commit_def
  by (auto simp: bnd_Inr_iff Let_def split_beta split: if_splits)

lemma load_firmware_commit_spec:
  assumes run: "load_firmware_commit metadata version fw_size r_msg_size s = Inr ((), s')"
    and r: "unat r_msg_size \<le> 1024"
  shows "(\<forall>j<unat fw_size. flash s' (FW_BASE + j) = data s j)
       \<and> (\<forall>j<6. flash s' (METADATA_BASE + j)
              = (if version = 0 \<and> j < 2 then flash s (METADATA_BASE + j) else metadata j))
       \<and> (\<forall>j<unat r_msg_size. flash s' (RELEASE_BASE + j) = fw_release_message s j)
       \<and> (\<exists>cs cs'. flash_log s' = flash_log s @ cs
              @ [Erased METADATA_BASE,
                 Programmed METADATA_BASE
                   [if version = 0 then flash s METADATA_BASE else metadata 0,
                    if version = 0 then flash s (METADATA_BASE + 1) else metadata 1,
                    metadata 2, metadata 3] 0,
                 Programmed (METADATA_BASE + 4) [metadata 4, metadata 5, 0xFF, 0xFF] 0] @ cs')"
proof -
  from run obtain s2 m where
    ff: "flash_firmware 0 FW_BASE fw_size s = Inr ((), s2)"
    and m: "m = (if version = 0
                 then metadata(0 := flash s2 METADATA_BASE, 1 := flash s2 (METADATA_BASE + 1))
                 else metadata)"
    and ok1: "fst (program_flash METADATA_BASE m 6 s2) = 0"
    and ok2: "fst (program_flash RELEASE_BASE (fw_release_message s2) (unat r_msg_size)
                     (snd (program_flash METADATA_BASE m 6 s2))) = 0"
    and s': "s' = snd (program_flash RELEASE_BASE (fw_release_message s2) (unat r_msg_size)
                         (snd (program_flash METADATA_BASE m 6 s2)))"
    by (rule load_firmware_commit_Inr)
  let ?s3 = "snd (program_flash METADATA_BASE m 6 s2)"
  have fs: "(\<forall>a. a < FW_BASE + 0 \<longrightarrow> flash (final (flash_firmware 0 (FW_BASE + 0) fw_size s)) a = flash s a)
       \<and> data (final (flash_firmware 0 (FW_BASE + 0) fw_size s)) = data s
       \<and> fw_release_message (final (flash_firmware 0 (FW_BASE + 0) fw_size s)) = fw_release_message s
       \<and> (returned (flash_firmware 0 (FW_BASE + 0) fw_size s) \<longrightarrow>
            (\<forall>j. 0 \<le> j \<and> j < unat fw_size \<longrightarrow>
                 flash (final (flash_firmware 0 (FW_BASE + 0) fw_size s)) (FW_BASE + j) = data s j))"
    by (rule flash_firmware_spec) simp
  have lo: "flash s2 a = flash s a" if "a < 65536" for a
    using fs ff that by simp
  have msg: "fw_release_message s2 = fw_release_message s"
    using fs ff by simp
  have fw: "flash s2 (65536 + j) = data s j" if "j < unat fw_size" for j
    using fs ff that by simp
  have a1: "(64512 :: nat) mod 1024 = 0" and a2: "(63488 :: nat) mod 1024 = 0" by simp_all
  have f3: "flash ?s3 a = flash s2 a" if "a < 64512 \<or> 65536 \<le> a" for a
    using program_flash_frame [of 64512 6 a m s2] that by simp
  have c3: "flash ?s3 (64512 + j) = m j" if "j < 6" for j
    using program_flash_content [of 64512 6 m s2 j] ok1 that by simp
  have f4: "flash s' a = flash ?s3 a" if "a < 63488 \<or> 64512 \<le> a" for a
    unfolding s' using program_flash_frame [of 63488 "unat r_msg_size" a _ ?s3] r that by simp
  have c4: "flash s' (63488 + j) = fw_release_message s j" if "j < unat r_msg_size" for j
    unfolding s' using program_flash_content [of 63488 "unat r_msg_size" _ ?s3 j] ok2 r that msg
    by simp
  have A: "\<forall>j<unat fw_size. flash s' (FW_BASE + j) = data s j"
    using f4 f3 fw by simp
  have mj: "m j = (if version = 0 \<and> j < 2 then flash s (METADATA_BASE + j) else metadata j)"
    if "j < 6" for j
    using that lo [of 64512] lo [of 64513] unfolding m
    by (cases "j = 0"; cases "j = 1") auto
  have B: "\<forall>j<6. flash s' (METADATA_BASE + j)
              = (if version = 0 \<and> j < 2 then flash s (METADATA_BASE + j) else metadata j)"
    using f4 c3 mj by simp
  have C: "\<forall>j<unat r_msg_size. flash s' (RELEASE_BASE + j) = fw_release_message s j"
    using c4 by simp
  obtain cs where cs: "flash_log s2 = flash_log s @ cs"
    using flash_firmware_log [of 0 FW_BASE fw_size s] ff by auto
  obtain cs' where cs': "flash_log s' = flash_log ?s3 @ cs'"
    unfolding s' using program_flash_log [of RELEASE_BASE _ _ ?s3] by blast
  have l3: "flash_log ?s3 = flash_log s2 @ [Erased METADATA_BASE,
              Programmed METADATA_BASE [m 0, m 1, m 2, m 3] 0,
              Programmed (METADATA_BASE + 4) [m 4, m 5, 0xFF, 0xFF] 0]"
    by (rule program_flash_metadata_log [OF ok1])
  have D: "\<exists>cs cs'. flash_log s' = flash_log s @ cs
              @ [Erased METADATA_BASE,
                 Programmed METADATA_BASE
                   [if version = 0 then flash s METADATA_BASE else metadata 0,
                    if version = 0 then flash s (METADATA_BASE + 1) else metadata 1,
                    metadata 2, metadata 3] 0,
                 Programmed (METADATA_BASE + 4) [metadata 4, metadata 5, 0xFF, 0xFF] 0] @ cs'"
    using cs cs' l3 mj [of 0] mj [of 1] mj [of 2] mj [of 3] mj [of 4] mj [of 5]
    by auto
  from A B C D show ?thesis by blast
qed

subsection \<open>Runs on intact input\<close>

text \<open>
  The stages on input bytes that are all read intact, as equations that rewrite a run
  on a concrete input; and the commit when the flash driver reports no failure.
\<close>

lemma ok_bytes_take:
  assumes "list_all snd (take n xs)"
  shows "ok_bytes (map fst (take n xs)) = take n xs"
  using assms by (induction xs arbitrary: n) (auto simp: ok_bytes_def take_Cons' )

lemma uart_read_variable_run:
  assumes "len \<le> 1024" "len \<le> length (rx s UART1)" "list_all snd (take len (rx s UART1))"
  shows "uart_read_variable u da len s
           = Inr (\<lambda>k. if k < len then fst (rx s UART1 ! k) else da k,
                  s\<lparr>rx := (rx s)(UART1 := drop len (rx s UART1))\<rparr>)"
proof -
  let ?bs = "map fst (take len (rx s UART1))"
  have rx: "rx s UART1 = ok_bytes ?bs @ drop len (rx s UART1)"
    using ok_bytes_take [OF assms(3)] by simp
  have l: "0 + length ?bs = min len 1024" using assms by simp
  have "uart_read_variable_loop 0 da len s
     = Inr (\<lambda>k. if 0 \<le> k \<and> k < 0 + length ?bs then ?bs ! (k - 0) else da k,
            s\<lparr>rx := (rx s)(UART1 := drop len (rx s UART1))\<rparr>)"
    by (rule uart_read_variable_loop_ok [OF rx l])
  moreover have "(\<lambda>k. if 0 \<le> k \<and> k < 0 + length ?bs then ?bs ! (k - 0) else da k)
               = (\<lambda>k. if k < len then fst (rx s UART1 ! k) else da k)"
    using assms(2) by (auto simp: fun_eq_iff)
  ultimately show ?thesis by (simp add: uart_read_variable_def)
qed

lemma uart_read_variable_msg_loop_ok:
  "rx s UART1 = ok_bytes bs @ rest \<Longrightarrow> i + length bs = min len 1024 \<Longrightarrow>
   uart_read_variable_msg_loop i len s
     = Inr ((), s\<lparr>rx := (rx s)(UART1 := rest),
                 fw_release_message :=
                   (\<lambda>k. if i \<le> k \<and> k < i + length bs then bs ! (k - i)
                        else fw_release_message s k)\<rparr>)"
proof (induction bs arbitrary: i s)
  case Nil
  have f: "(\<lambda>k. if i \<le> k \<and> k < i + length ([] :: byte list) then [] ! (k - i)
                 else fw_release_message s k) = fw_release_message s"
    by (auto simp: fun_eq_iff)
  show ?case
    unfolding f using Nil
    by (subst uart_read_variable_msg_loop.simps) (auto simp: ok_bytes_def)
next
  case (Cons b bs)
  let ?s1 = "s\<lparr>rx := (rx s)(UART1 := ok_bytes bs @ rest)\<rparr>"
  let ?s2 = "?s1\<lparr>fw_release_message := (fw_release_message ?s1)(i := b)\<rparr>"
  have lt: "i < len \<and> i < 1024" using Cons.prems(2) by auto
  have rd: "uart_read UART1 s = Inr ((b, True), ?s1)"
    using Cons.prems(1) by (simp add: uart_read_def ok_bytes_def)
  have ih: "uart_read_variable_msg_loop (Suc i) len ?s2
     = Inr ((), ?s2\<lparr>rx := (rx ?s2)(UART1 := rest),
                 fw_release_message :=
                   (\<lambda>k. if Suc i \<le> k \<and> k < Suc i + length bs then bs ! (k - Suc i)
                        else fw_release_message ?s2 k)\<rparr>)"
    by (rule Cons.IH) (use Cons.prems(2) in auto)
  have f: "(\<lambda>k. if Suc i \<le> k \<and> k < Suc i + length bs then bs ! (k - Suc i)
                 else fw_release_message ?s2 k)
         = (\<lambda>k. if i \<le> k \<and> k < i + length (b # bs) then (b # bs) ! (k - i)
                 else fw_release_message s k)"
    by (rule ext) (auto simp: nth_Cons' Suc_diff_Suc less_Suc_eq_le)
  have step: "uart_read_variable_msg_loop i len s = uart_read_variable_msg_loop (Suc i) len ?s2"
    by (subst uart_read_variable_msg_loop.simps) (simp add: lt rd check_read_def del: fun_upd_apply)
  have st: "?s2\<lparr>rx := (rx ?s2)(UART1 := rest), fw_release_message := d\<rparr>
              = s\<lparr>rx := (rx s)(UART1 := rest), fw_release_message := d\<rparr>" for d
    by simp
  show ?case
    by (simp only: step ih f st)
qed

lemma uart_read_variable_msg_run:
  assumes "len \<le> 1024" "len \<le> length (rx s UART1)" "list_all snd (take len (rx s UART1))"
  shows "uart_read_variable_msg u len s
           = Inr ((), s\<lparr>rx := (rx s)(UART1 := drop len (rx s UART1)),
                       fw_release_message :=
                         (\<lambda>k. if k < len then fst (rx s UART1 ! k) else fw_release_message s k)\<rparr>)"
proof -
  let ?bs = "map fst (take len (rx s UART1))"
  have rx: "rx s UART1 = ok_bytes ?bs @ drop len (rx s UART1)"
    using ok_bytes_take [OF assms(3)] by simp
  have l: "0 + length ?bs = min len 1024" using assms by simp
  have "uart_read_variable_msg_loop 0 len s
     = Inr ((), s\<lparr>rx := (rx s)(UART1 := drop len (rx s UART1)),
                 fw_release_message :=
                   (\<lambda>k. if 0 \<le> k \<and> k < 0 + length ?bs then ?bs ! (k - 0)
                        else fw_release_message s k)\<rparr>)"
    by (rule uart_read_variable_msg_loop_ok [OF rx l])
  moreover have "(\<lambda>k. if 0 \<le> k \<and> k < 0 + length ?bs then ?bs ! (k - 0)
                        else fw_release_message s k)
               = (\<lambda>k. if k < len then fst (rx s UART1 ! k) else fw_release_message s k)"
    using assms(2) by (auto simp: fun_eq_iff)
  ultimately show ?thesis by (simp add: uart_read_variable_msg_def)
qed

lemma sha_hmac_run:
  assumes "32 \<le> length (rx s UART1)" "list_all snd (take 32 (rx s UART1))"
  shows "sha_hmac p msg s =
           (if map fst (take 32 (rx s UART1)) = bytes_of (buf_of_list (hmac_sha256 p msg)) 0 32
            then Inr (32, s\<lparr>rx := (rx s)(UART1 := drop 32 (rx s UART1))\<rparr>)
            else send_err (s\<lparr>rx := (rx s)(UART1 := drop 32 (rx s UART1))\<rparr>))"
proof -
  let ?mac = "map fst (take 32 (rx s UART1))"
  have rx: "rx s UART1 = ok_bytes ?mac @ drop 32 (rx s UART1)"
    using ok_bytes_take [OF assms(2)] by simp
  have l: "length ?mac = 32" using assms(1) by simp
  have "(\<forall>k<32. ?mac ! k = buf_of_list (hmac_sha256 p msg) k)
          \<longleftrightarrow> ?mac = bytes_of (buf_of_list (hmac_sha256 p msg)) 0 32"
    using l by (auto simp: list_eq_iff_nth_eq bytes_of_def)
  then show ?thesis
    using sha_hmac_ok [OF rx l, of p msg] by simp
qed

lemma data_store_run_aux:
  "off + n \<le> DATA_SIZE \<Longrightarrow> i \<le> n \<Longrightarrow>
     data_store i n off src s
       = Inr ((), s\<lparr>data := (\<lambda>k. if off + i \<le> k \<and> k < off + n then src (k - off) else data s k)\<rparr>)"
proof (induction "n - i" arbitrary: i s)
  case 0
  then have i: "i = n" by simp
  have f: "(\<lambda>k. if off + i \<le> k \<and> k < off + n then src (k - off) else data s k) = data s"
    using i by (auto simp: fun_eq_iff)
  show ?case
    unfolding f by (subst data_store.simps) (simp add: i)
next
  case (Suc m)
  then have lt: "i < n" and m: "m = n - Suc i" by simp_all
  have w: "data_write (off + i) (src i) s = Inr ((), s\<lparr>data := (data s)(off + i := src i)\<rparr>)"
    using lt Suc.prems(1) by (simp add: data_write_def)
  have ih: "data_store (Suc i) n off src (s\<lparr>data := (data s)(off + i := src i)\<rparr>)
      = Inr ((), s\<lparr>data := (data s)(off + i := src i)\<rparr>
                  \<lparr>data := (\<lambda>k. if off + Suc i \<le> k \<and> k < off + n then src (k - off)
                              else data (s\<lparr>data := (data s)(off + i := src i)\<rparr>) k)\<rparr>)"
    by (rule Suc.hyps(1) [OF m Suc.prems(1)]) (use lt in simp)
  have f: "(\<lambda>k. if off + Suc i \<le> k \<and> k < off + n then src (k - off)
                 else data (s\<lparr>data := (data s)(off + i := src i)\<rparr>) k)
         = (\<lambda>k. if off + i \<le> k \<and> k < off + n then src (k - off) else data s k)"
    using lt by (auto simp: fun_eq_iff)
  have step: "data_store i n off src s
                = data_store (Suc i) n off src (s\<lparr>data := (data s)(off + i := src i)\<rparr>)"
    by (subst data_store.simps) (simp add: lt w)
  show ?case
    by (simp only: step ih f) simp
qed

lemma data_store_run:
  "off + n \<le> DATA_SIZE \<Longrightarrow>
     data_store 0 n off src s
       = Inr ((), s\<lparr>data := (\<lambda>k. if off \<le> k \<and> k < off + n then src (k - off) else data s k)\<rparr>)"
  using data_store_run_aux [of off n 0 src s] by simp

lemma unat_count_succ:
  assumes "unat (br :: 32 word) < unat (sz :: 16 word)"
  shows "unat (br + 1) = Suc (unat br)"
proof -
  have "unat sz < 2 ^ 16" using unsigned_less [of sz, where ?'a = nat] by simp
  then have "unat br + 1 < 2 ^ 32" using assms by simp
  then show ?thesis by (simp add: unat_word_ariths)
qed

lemma read_frame_loop_ok:
  "rx s UART1 = ok_bytes bs @ rest \<Longrightarrow> i + length bs = min (unat frame_length) 1024 \<Longrightarrow>
   unat bytes_recieved + length bs \<le> unat fw_size \<Longrightarrow>
   1024 * unat index + i + length bs \<le> DATA_SIZE \<Longrightarrow>
   read_frame i frame_length index fw_size bytes_recieved s
     = Inr ((i + length bs, bytes_recieved + of_nat (length bs)),
            s\<lparr>rx := (rx s)(UART1 := rest),
              data := (\<lambda>k. if 1024 * unat index + i \<le> k \<and> k < 1024 * unat index + i + length bs
                            then bs ! (k - (1024 * unat index + i)) else data s k)\<rparr>)"
proof (induction bs arbitrary: i bytes_recieved s)
  case Nil
  have f: "(\<lambda>k. if 1024 * unat index + i \<le> k \<and> k < 1024 * unat index + i + length ([] :: byte list)
                 then [] ! (k - (1024 * unat index + i)) else data s k) = data s"
    by (auto simp: fun_eq_iff)
  show ?case
    unfolding f using Nil
    by (subst read_frame.simps) (auto simp: ok_bytes_def)
next
  case (Cons b bs)
  let ?off = "1024 * unat index"
  let ?s1 = "s\<lparr>rx := (rx s)(UART1 := ok_bytes bs @ rest)\<rparr>"
  let ?s3 = "?s1\<lparr>data := (data ?s1)(?off + i := b)\<rparr>"
  have lt: "i < unat frame_length \<and> i < 1024" using Cons.prems(2) by auto
  have rd: "uart_read UART1 s = Inr ((b, True), ?s1)"
    using Cons.prems(1) by (simp add: uart_read_def ok_bytes_def)
  have w: "data_write (?off + i) b ?s1 = Inr ((), ?s3)"
    using Cons.prems(4) by (simp add: data_write_def)
  have c: "unat bytes_recieved < unat fw_size" using Cons.prems(3) by simp
  have u: "unat (bytes_recieved + 1) = Suc (unat bytes_recieved)"
    by (rule unat_count_succ [OF c])
  have nov: "\<not> unat (bytes_recieved + 1) > unat fw_size" using u c by simp
  have step: "read_frame i frame_length index fw_size bytes_recieved s
                = read_frame (Suc i) frame_length index fw_size (bytes_recieved + 1) ?s3"
    by (subst read_frame.simps) (simp add: lt rd w check_read_def nov del: fun_upd_apply)
  have ih: "read_frame (Suc i) frame_length index fw_size (bytes_recieved + 1) ?s3
     = Inr ((Suc i + length bs, bytes_recieved + 1 + of_nat (length bs)),
            ?s3\<lparr>rx := (rx ?s3)(UART1 := rest),
              data := (\<lambda>k. if ?off + Suc i \<le> k \<and> k < ?off + Suc i + length bs
                            then bs ! (k - (?off + Suc i)) else data ?s3 k)\<rparr>)"
    by (rule Cons.IH) (use Cons.prems u in auto)
  have f: "(\<lambda>k. if ?off + Suc i \<le> k \<and> k < ?off + Suc i + length bs
                 then bs ! (k - (?off + Suc i)) else data ?s3 k)
         = (\<lambda>k. if ?off + i \<le> k \<and> k < ?off + i + length (b # bs)
                 then (b # bs) ! (k - (?off + i)) else data s k)"
    by (rule ext) (auto simp: nth_Cons' less_Suc_eq_le)
  have st: "?s3\<lparr>rx := (rx ?s3)(UART1 := rest), data := d\<rparr>
              = s\<lparr>rx := (rx s)(UART1 := rest), data := d\<rparr>" for d
    by simp
  have n: "Suc i + length bs = i + length (b # bs)"
    "bytes_recieved + 1 + of_nat (length bs) = bytes_recieved + of_nat (length (b # bs))"
    by simp_all
  show ?case
    by (simp only: step ih f st n)
qed

lemma read_frame_run:
  assumes "unat frame_length \<le> 1024" "unat frame_length \<le> length (rx s UART1)"
    and "list_all snd (take (unat frame_length) (rx s UART1))"
    and "unat bytes_recieved + unat frame_length \<le> unat fw_size"
    and "1024 * unat index + unat frame_length \<le> DATA_SIZE"
  shows "read_frame 0 frame_length index fw_size bytes_recieved s
     = Inr ((unat frame_length, bytes_recieved + ucast frame_length),
            s\<lparr>rx := (rx s)(UART1 := drop (unat frame_length) (rx s UART1)),
              data := (\<lambda>k. if 1024 * unat index \<le> k \<and> k < 1024 * unat index + unat frame_length
                            then fst (rx s UART1 ! (k - 1024 * unat index)) else data s k)\<rparr>)"
proof -
  let ?n = "unat frame_length"
  let ?bs = "map fst (take ?n (rx s UART1))"
  have rx: "rx s UART1 = ok_bytes ?bs @ drop ?n (rx s UART1)"
    using ok_bytes_take [OF assms(3)] by simp
  have l: "length ?bs = ?n" using assms(2) by simp
  have "read_frame 0 frame_length index fw_size bytes_recieved s
     = Inr ((0 + length ?bs, bytes_recieved + of_nat (length ?bs)),
            s\<lparr>rx := (rx s)(UART1 := drop ?n (rx s UART1)),
              data := (\<lambda>k. if 1024 * unat index + 0 \<le> k \<and> k < 1024 * unat index + 0 + length ?bs
                            then ?bs ! (k - (1024 * unat index + 0)) else data s k)\<rparr>)"
    by (rule read_frame_loop_ok [OF rx]) (use assms l in auto)
  moreover have "(\<lambda>k. if 1024 * unat index + 0 \<le> k \<and> k < 1024 * unat index + 0 + length ?bs
                            then ?bs ! (k - (1024 * unat index + 0)) else data s k)
       = (\<lambda>k. if 1024 * unat index \<le> k \<and> k < 1024 * unat index + unat frame_length
                            then fst (rx s UART1 ! (k - 1024 * unat index)) else data s k)"
    using assms(2) by (auto simp: fun_eq_iff)
  moreover have "(of_nat ?n :: 32 word) = ucast frame_length"
    by simp
  ultimately show ?thesis using l by simp
qed

definition empty_input :: "byte list" where
  "empty_input =
     [0, 0, 0, 0, 0, 0] @ toy_mac [0, 0, 0, 0, 0, 0]
     @ [0, 0, 0, 0, 0, 0] @ toy_mac [0, 0, 0, 0, 0, 0]
     @ toy_mac [0, 0, 0, 0, 0, 0]
     @ toy_mac []
     @ toy_mac []
     @ toy_mac [0, 0, 0, 0, 0, 0]
     @ replicate 16 0 @ replicate 16 0"

lemma upload_more [simp]:
  "data (upload bs v) = (\<lambda>i. 0)" "fw_release_message (upload bs v) = (\<lambda>i. 0)"
  "flash_rets (upload bs v) = []"
  by (simp_all add: upload_def device_def)

lemma print_bolt_more [simp]:
  "data (print_bolt s) = data s" "fw_release_message (print_bolt s) = fw_release_message s"
  by (simp_all add: print_bolt_def uart_write_str_def Let_def)

lemma ok_bytes_simps [simp]:
  "length (ok_bytes xs) = length xs"
  "take n (ok_bytes xs) = ok_bytes (take n xs)"
  "drop n (ok_bytes xs) = ok_bytes (drop n xs)"
  "list_all snd (ok_bytes xs)"
  "map fst (ok_bytes xs) = xs"
  by (simp_all add: ok_bytes_def take_map drop_map list_all_iff comp_def)

lemma ok_bytes_nth [simp]: "k < length xs \<Longrightarrow> fst (ok_bytes xs ! k) = xs ! k"
  by (simp add: ok_bytes_def)

lemma replicate_numeral_Cons: "replicate (numeral k) x = x # replicate (pred_numeral k) x"
  by (simp add: numeral_eq_Suc)

lemmas run_simps = replicate_numeral_Cons
  load_firmware_def load_firmware_precommit_def load_firmware_metadata_def
  load_firmware_frames.simps load_firmware_frame_def load_firmware_verify_def
  load_firmware_commit_def flash_firmware_unfold gcm_decrypt_and_verify_def
  uart_read_variable_run uart_read_variable_msg_run sha_hmac_run read_frame_run data_store_run
  bnd_def ret_def put_def Let_def split_beta
  program_flash_def FlashErase_def FlashProgram_def next_ret_def
  last_word_data.simps last_word_fill.simps word_bytes_def
  uart_write_def bytes_of_def buf_of_list_def u16_of_def frame_number_of_def
  toy_platform_def toy_mac_def upt_rec


lemma program_flash_no_failure:
  assumes "flash_rets s = []"
  shows "fst (program_flash pa src len s) = 0 \<and> flash_rets (snd (program_flash pa src len s)) = []"
  using assms
  by (simp add: program_flash_def FlashProgram_def FlashErase_def next_ret_def Let_def split_beta)

lemma flash_firmware_no_failure:
  "flash_rets s = [] \<Longrightarrow>
     returned (flash_firmware i pa fw_size s) \<and> flash_rets (final (flash_firmware i pa fw_size s)) = []"
proof (induction "unat fw_size - i" arbitrary: i pa s rule: less_induct)
  case less
  show ?case
  proof (cases "i < unat fw_size")
    case False
    then show ?thesis using less.prems by (subst (1 2) flash_firmware_step) simp
  next
    case True
    let ?rs = "program_flash pa (\<lambda>k. data s (i + k)) (min 1024 (unat fw_size - i)) s"
    have ok: "fst ?rs = 0" "flash_rets (snd ?rs) = []"
      using program_flash_no_failure [OF less.prems] by simp_all
    have m: "unat fw_size - (i + 1024) < unat fw_size - i" using True by simp
    have r: "flash_firmware i pa fw_size s = flash_firmware (i + 1024) (pa + 1024) fw_size (snd ?rs)"
      using True ok by (subst flash_firmware_step) (simp add: Let_def)
    show ?thesis
      unfolding r by (rule less.hyps [OF m ok(2)])
  qed
qed

lemma load_firmware_commit_no_failure:
  assumes "flash_rets s = []"
  shows "\<exists>s'. load_firmware_commit metadata version fw_size r_msg_size s = Inr ((), s')"
proof -
  obtain s2 where ff: "flash_firmware 0 65536 fw_size s = Inr ((), s2)" and r2: "flash_rets s2 = []"
    using flash_firmware_no_failure [OF assms, of 0 65536 fw_size]
    by (cases "flash_firmware 0 65536 fw_size s") (auto simp: returned_def)
  have a: "fst (program_flash 64512 m 6 s2) = 0"
          "flash_rets (snd (program_flash 64512 m 6 s2)) = []" for m
    using program_flash_no_failure [OF r2] by simp_all
  have b: "fst (program_flash 63488 msg n (snd (program_flash 64512 m 6 s2))) = 0"
    for m msg n
    using program_flash_no_failure [OF a(2)] by simp
  show ?thesis
    unfolding load_firmware_commit_def
    by (simp add: bnd_def ff Let_def split_beta a b)
qed

lemma load_firmware_commit_zero:
  assumes r: "unat r_msg_size \<le> 1024"
  shows "(\<forall>a\<ge>FW_BASE. flash (final (load_firmware_commit metadata version 0 r_msg_size s)) a = flash s a)
       \<and> (\<exists>cs. flash_log (final (load_firmware_commit metadata version 0 r_msg_size s)) = flash_log s @ cs
               \<and> list_all (\<lambda>c. call_addr c < FW_BASE) cs)"
proof -
  define m where "m = (if version = 0
          then metadata(0 := flash s METADATA_BASE, 1 := flash s (METADATA_BASE + 1))
          else metadata)"
  let ?r1 = "program_flash METADATA_BASE m 6 s"
  let ?r2 = "program_flash RELEASE_BASE (fw_release_message (snd ?r1)) (unat r_msg_size) (snd ?r1)"
  have ff: "flash_firmware 0 65536 0 s = Inr ((), s)"
    by (subst flash_firmware_step) simp
  have c: "load_firmware_commit metadata version 0 r_msg_size s
             = (if fst ?r1 \<noteq> 0 then send_err (snd ?r1)
                else if fst ?r2 \<noteq> 0 then send_err (snd ?r2) else Inr ((), snd ?r2))"
    unfolding load_firmware_commit_def m_def
    by (simp add: bnd_def ff Let_def split_beta)
  have f1: "flash (snd ?r1) a = flash s a" if "65536 \<le> a" for a
    using program_flash_frame [of 64512 6 a m s] that by simp
  have f2: "flash (snd ?r2) a = flash (snd ?r1) a" if "65536 \<le> a" for a
    using program_flash_frame [of 63488 "unat r_msg_size" a _ "snd ?r1"] r that by simp
  obtain cs1 where l1: "flash_log (snd ?r1) = flash_log s @ cs1"
    and a1: "list_all (\<lambda>c. METADATA_BASE \<le> call_addr c \<and> call_addr c \<le> METADATA_BASE + 6) cs1"
    using program_flash_log [of METADATA_BASE m 6 s] by blast
  obtain cs2 where l2: "flash_log (snd ?r2) = flash_log (snd ?r1) @ cs2"
    and a2: "list_all (\<lambda>c. RELEASE_BASE \<le> call_addr c \<and> call_addr c \<le> RELEASE_BASE + unat r_msg_size) cs2"
    using program_flash_log [of RELEASE_BASE _ "unat r_msg_size" "snd ?r1"] by blast
  have b1: "list_all (\<lambda>c. call_addr c < FW_BASE) cs1"
    using a1 by (auto simp: list_all_iff)
  have b2: "list_all (\<lambda>c. call_addr c < FW_BASE) cs2"
    using a2 r by (auto simp: list_all_iff)
  show ?thesis
    unfolding c using f1 f2 l1 l2 b1 b2 by auto
qed

text \<open>
  Two uploads for \<open>toy_platform\<close>: a debug upload (version 0) of five bytes of
  firmware and a two byte release message, and an upload of version 8 with
  \<open>fw_size = 0\<close>, one frame of length 0 and an empty release message.
\<close>

definition debug_input :: "byte list" where
  "debug_input =
     [0, 0, 5, 0, 2, 0] @ toy_mac [0, 0, 5, 0, 2, 0]
     @ [0, 0, 5, 0, 0, 0] @ toy_mac [0, 0, 5, 0, 0, 0]
     @ [1, 2, 3, 4, 5] @ toy_mac ([1, 2, 3, 4, 5] @ [0, 0, 5, 0, 0, 0])
     @ toy_mac [1, 2, 3, 4, 5]
     @ [0x68, 0x69] @ toy_mac [0x68, 0x69]
     @ toy_mac ([1, 2, 3, 4, 5] @ [0, 0, 5, 0, 2, 0] @ [0x68, 0x69])
     @ replicate 16 1 @ replicate 16 31"

definition zero_size_input :: "byte list" where
  "zero_size_input =
     [8, 0, 0, 0, 0, 0] @ toy_mac [8, 0, 0, 0, 0, 0]
     @ [0, 0, 0, 0, 8, 0] @ toy_mac [0, 0, 0, 0, 8, 0]
     @ toy_mac [0, 0, 0, 0, 8, 0]
     @ toy_mac []
     @ toy_mac []
     @ toy_mac [8, 0, 0, 0, 0, 0]
     @ replicate 16 0 @ replicate 16 0"

lemma debug_input_run:
  "case load_firmware_precommit (toy_platform 0) (upload debug_input 9) of
     Inl e \<Rightarrow> False
   | Inr (x, s1) \<Rightarrow> fst (snd x) = 0 \<and> fst (snd (snd x)) = 5 \<and> snd (snd (snd x)) = 2
        \<and> fst x 2 = 5 \<and> fst x 3 = 0 \<and> fst x 4 = 2 \<and> fst x 5 = 0
        \<and> map (data s1) [0, 1, 2, 3, 4] = [254, 253, 252, 251, 250]
        \<and> map (fw_release_message s1) [0, 1] = [0x68, 0x69]"
  by (simp add: run_simps debug_input_def stored_version_def flash_v_def)

lemma zero_size_input_run:
  "case load_firmware_precommit (toy_platform 0) (upload zero_size_input 7) of
     Inl e \<Rightarrow> False
   | Inr (x, s1) \<Rightarrow> fst (snd x) = 8 \<and> fst (snd (snd x)) = 0 \<and> snd (snd (snd x)) = 0
        \<and> map (fst x) [0, 1, 2, 3] = [8, 0, 0, 0]"
  by (simp add: run_simps zero_size_input_def stored_version_def flash_v_def)

lemma zero_size_input_run_other:
  "case load_firmware_precommit (toy_platform 0xFFFF) (upload zero_size_input 7) of
     Inl e \<Rightarrow> fst e = Reset | Inr x \<Rightarrow> False"
  by (simp add: run_simps zero_size_input_def stored_version_def flash_v_def send_err_def)

text \<open>
  An update whose metadata has \<open>fw_size = 0\<close> never touches a firmware page: let the
  six metadata bytes arrive intact with \<open>fw_size = 0\<close>; however the run of
  \<open>load_firmware\<close> ends, no byte of the flash at or above \<open>FW_BASE\<close> has changed and
  no call of the flash driver is at an address of the firmware region.
\<close>

lemma zero_size_update_leaves_firmware_pages:
  assumes rx: "rx s UART1 = ok_bytes md @ rest" and len: "length md = FW_METADATA_SIZE"
    and z: "le16 md 2 = 0"
  shows "(\<forall>a\<ge>FW_BASE. flash (final (load_firmware p s)) a = flash s a)
       \<and> (\<forall>c\<in>set (new_calls s (final (load_firmware p s))). call_addr c < FW_BASE)"
proof (cases "load_firmware_precommit p s")
  case (Inl e)
  obtain h s1 where e: "e = (h, s1)" by (cases e)
  have "untouched s s1"
    using untouched_Inl [OF untouched_load_firmware_precommit] Inl e by blast
  then show ?thesis
    using load_firmware_Inl [OF Inl] e by (simp add: untouched_def new_calls_def)
next
  case (Inr x)
  obtain metadata version fw_size r_msg_size s1 where
    x: "x = ((metadata, version, fw_size, r_msg_size), s1)"
    by (cases x) auto
  have pre: "load_firmware_precommit p s = Inr ((metadata, version, fw_size, r_msg_size), s1)"
    using Inr x by simp
  have f: "fw_size = 0"
    using load_firmware_precommit_fw_size [OF pre rx] len z by simp
  have q: "unat r_msg_size \<le> 1024" "flash s1 = flash s" "flash_log s1 = flash_log s"
    using load_firmware_precommit_Inr [OF pre] by simp_all
  have c: "load_firmware p s = load_firmware_commit metadata version 0 r_msg_size s1"
    by (simp add: load_firmware_def bnd_def pre f)
  show ?thesis
    unfolding c using load_firmware_commit_zero [OF q(1), of metadata version s1] q(2,3)
    by (auto simp: new_calls_def list_all_iff)
qed

section \<open>The claims\<close>

text \<open>
  C1 (the authenticators are read from the debug port). The code does otherwise:
  \<open>uart_read_variable\<close> never takes a byte from UART2, whatever port it is given. In
  the run below the right MAC of the empty message waits on UART2 and 32 zero bytes on
  UART1; \<open>sha_hmac\<close> compares the bytes of UART1 and takes the error path.
\<close>

theorem sha_hmac_reads_uart1_not_debug:
  "(\<forall>u da len s. rx (final (uart_read_variable u da len s)) UART2 = rx s UART2)
   \<and> sha_hmac (toy_platform 0) []
        (device (ok_bytes (replicate 32 0)) (ok_bytes (toy_mac [])) (\<lambda>a. 0))
      = send_err ((device (ok_bytes (replicate 32 0)) (ok_bytes (toy_mac [])) (\<lambda>a. 0))
                    \<lparr>rx := (rx (device (ok_bytes (replicate 32 0)) (ok_bytes (toy_mac [])) (\<lambda>a. 0)))
                             (UART1 := [])\<rparr>)"
proof -
  let ?s = "device (ok_bytes (replicate 32 0)) (ok_bytes (toy_mac [])) (\<lambda>a. 0)"
  have a: "\<forall>u da len s. rx (final (uart_read_variable u da len s)) UART2 = rx s UART2"
    using untouched_uart_read_variable_loop
    by (simp add: uart_read_variable_def untouched_def)
  have rx: "rx ?s UART1 = ok_bytes (replicate 32 0) @ []"
    by (simp add: device_def)
  have ne: "\<not> (\<forall>k<32. replicate 32 (0 :: byte) ! k = buf_of_list (hmac_sha256 (toy_platform 0) []) k)"
    by (auto simp: toy_platform_def toy_mac_def buf_of_list_def intro: exI [of _ 0])
  have b: "sha_hmac (toy_platform 0) [] ?s = send_err (?s\<lparr>rx := (rx ?s)(UART1 := [])\<rparr>)"
    by (subst sha_hmac_ok [OF rx]) (simp_all only: ne if_False length_replicate)
  from a b show ?thesis by blast
qed

text \<open>
  C7 (the HMAC check). Given the 32 bytes of the MAC arriving intact, \<open>sha_hmac\<close>
  returns 32 exactly when they are the HMAC of the message, and takes the error path
  otherwise; the MACs are equal exactly when they agree at all 32 positions, and exactly
  when the accumulator of the compare loop ends at zero; and the loop always ends with
  its counter at 32, whatever the bytes are. (After \<open>send_err\<close> the chip has been reset,
  so the \<open>return 0\<close> of the source is the end of the run here.)
\<close>

theorem sha_hmac_compares_all_32_bytes:
  assumes "rx s UART1 = ok_bytes mac @ rest" and "length mac = HMAC_SIZE"
    and "length (hmac_sha256 p msg) = HMAC_SIZE"
  shows "sha_hmac p msg s =
           (if mac = hmac_sha256 p msg
            then Inr (32, s\<lparr>rx := (rx s)(UART1 := rest)\<rparr>)
            else send_err (s\<lparr>rx := (rx s)(UART1 := rest)\<rparr>))
       \<and> (mac = hmac_sha256 p msg \<longleftrightarrow> (\<forall>k<HMAC_SIZE. mac ! k = hmac_sha256 p msg ! k))
       \<and> (mac = hmac_sha256 p msg \<longleftrightarrow>
            snd (hmac_compare 0 0 (buf_of_list mac) (buf_of_list (hmac_sha256 p msg))) = 0)
       \<and> fst (hmac_compare 0 0 (buf_of_list mac) (buf_of_list (hmac_sha256 p msg))) = HMAC_SIZE"
proof -
  have len: "length mac = 32" "length (hmac_sha256 p msg) = 32"
    using assms by simp_all
  have a: "sha_hmac p msg s =
           (if mac = hmac_sha256 p msg
            then Inr (32, s\<lparr>rx := (rx s)(UART1 := rest)\<rparr>)
            else send_err (s\<lparr>rx := (rx s)(UART1 := rest)\<rparr>))"
    using sha_hmac_ok [OF assms(1) len(1), of p msg] buf_of_list_eq_iff [OF len]
    by simp
  have b: "mac = hmac_sha256 p msg \<longleftrightarrow> (\<forall>k<HMAC_SIZE. mac ! k = hmac_sha256 p msg ! k)"
    using len by (auto simp: list_eq_iff_nth_eq)
  have c: "mac = hmac_sha256 p msg \<longleftrightarrow>
            snd (hmac_compare 0 0 (buf_of_list mac) (buf_of_list (hmac_sha256 p msg))) = 0"
    using len by (auto simp: hmac_compare_snd buf_of_list_def list_eq_iff_nth_eq)
  have d: "fst (hmac_compare 0 0 (buf_of_list mac) (buf_of_list (hmac_sha256 p msg))) = HMAC_SIZE"
    by (simp add: hmac_compare_fst)
  from a b c d show ?thesis by blast
qed

theorem sha_hmac_compares_all_32_bytes_witness:
  "sha_hmac (toy_platform 0) [1, 2, 3] (device (ok_bytes (replicate 32 0x60)) [] (\<lambda>a. 0))
     = Inr (32, (device (ok_bytes (replicate 32 0x60)) [] (\<lambda>a. 0))
                 \<lparr>rx := (rx (device (ok_bytes (replicate 32 0x60)) [] (\<lambda>a. 0)))(UART1 := [])\<rparr>)
   \<and> sha_hmac (toy_platform 0) [1, 2, 4] (device (ok_bytes (replicate 32 0x60)) [] (\<lambda>a. 0))
     = send_err ((device (ok_bytes (replicate 32 0x60)) [] (\<lambda>a. 0))
                 \<lparr>rx := (rx (device (ok_bytes (replicate 32 0x60)) [] (\<lambda>a. 0)))(UART1 := [])\<rparr>)"
proof -
  let ?s = "device (ok_bytes (replicate 32 0x60)) [] (\<lambda>a. 0)"
  have rx: "rx ?s UART1 = ok_bytes (replicate 32 0x60) @ []"
    by (simp add: device_def)
  have l: "length (replicate 32 (0x60 :: byte)) = HMAC_SIZE" by simp
  have m3: "hmac_sha256 (toy_platform 0) [1, 2, 3] = replicate 32 0x60"
    by (simp add: toy_platform_def toy_mac_def)
  have m4: "hmac_sha256 (toy_platform 0) [1, 2, 4] = replicate 32 0x61"
    by (simp add: toy_platform_def toy_mac_def)
  have ne: "replicate 32 (0x60 :: byte) \<noteq> replicate 32 0x61"
    by (simp add: replicate_eq_replicate)
  have l3: "length (hmac_sha256 (toy_platform 0) [1, 2, 3]) = HMAC_SIZE" by (simp add: m3)
  have l4: "length (hmac_sha256 (toy_platform 0) [1, 2, 4]) = HMAC_SIZE" by (simp add: m4)
  show ?thesis
    using sha_hmac_compares_all_32_bytes [OF rx l l3] sha_hmac_compares_all_32_bytes [OF rx l l4]
    by (simp add: m3 m4 ne)
qed



text \<open>
  C8 (the contract of \<open>program_flash\<close>), amended: the last word is programmed only
  when the \<open>FlashProgram\<close> of the full words returned 0. When the length is a multiple
  of 4 the call is one page erase followed by one \<open>FlashProgram\<close> of \<open>src[0..len)\<close> at
  \<open>page_addr\<close>. Otherwise it is the erase, a \<open>FlashProgram\<close> of the first
  \<open>floor(len / 4) * 4\<close> bytes and, when that returned 0, a \<open>FlashProgram\<close> at the next
  word address of the last word: the remaining bytes with \<open>0xFF\<close> above them; when it
  returned non-zero the call returns that status at once (lines 530 to 533). The call
  returns non-zero exactly when one of its \<open>FlashProgram\<close> calls did. This holds for
  every length, in particular for those up to 1024.
\<close>

theorem program_flash_contract:
  "(data_len mod FLASH_WRITESIZE = 0 \<longrightarrow>
      program_flash page_addr src data_len s
        = FlashProgram (bytes_of src 0 data_len) page_addr (FlashErase page_addr s))
   \<and> (data_len mod FLASH_WRITESIZE \<noteq> 0 \<longrightarrow>
      program_flash page_addr src data_len s
        = (let num_full_bytes = data_len div FLASH_WRITESIZE * FLASH_WRITESIZE;
               (r, s1) = FlashProgram (bytes_of src 0 num_full_bytes) page_addr
                           (FlashErase page_addr s)
           in if r \<noteq> 0 then (r, s1)
              else FlashProgram
                     (padded_last_word src num_full_bytes (data_len mod FLASH_WRITESIZE))
                     (page_addr + num_full_bytes) s1))
   \<and> (fst (program_flash page_addr src data_len s) \<noteq> 0
        \<longleftrightarrow> list_ex failed (new_calls s (snd (program_flash page_addr src data_len s))))"
  using program_flash_whole_words [of data_len page_addr src s]
        program_flash_partial_word [of data_len page_addr src s]
        program_flash_returns_failure [of page_addr src data_len s]
  by blast

theorem program_flash_contract_witness:
  "program_flash METADATA_BASE (buf_of_list [3, 0, 5, 0, 2, 0]) 6 (device [] [] flash0)
     = FlashProgram [2, 0, 0xFF, 0xFF] (METADATA_BASE + 4)
         (snd (FlashProgram [3, 0, 5, 0] METADATA_BASE (FlashErase METADATA_BASE (device [] [] flash0))))
   \<and> program_flash FW_BASE (buf_of_list [1, 2, 3, 4]) 4 (device [] [] flash0)
     = FlashProgram [1, 2, 3, 4] FW_BASE (FlashErase FW_BASE (device [] [] flash0))
   \<and> fst (program_flash FW_BASE (buf_of_list [1, 2, 3, 4]) 4
             ((device [] [] flash0)\<lparr>flash_rets := [5]\<rparr>)) \<noteq> 0"
proof -
  have up: "[0..<4] = [0, 1, 2, 3]" "[4..<6] = [4, 5]"
    by (simp_all add: upt_rec)
  have a: "program_flash METADATA_BASE (buf_of_list [3, 0, 5, 0, 2, 0]) 6 (device [] [] flash0)
     = FlashProgram [2, 0, 0xFF, 0xFF] (METADATA_BASE + 4)
         (snd (FlashProgram [3, 0, 5, 0] METADATA_BASE (FlashErase METADATA_BASE (device [] [] flash0))))"
    using program_flash_contract [of 6 METADATA_BASE "buf_of_list [3, 0, 5, 0, 2, 0]" "device [] [] flash0"]
    by (simp add: bytes_of_def buf_of_list_def padded_last_word_def up replicate_small
                  FlashProgram_def [of "[3, 0, 5, 0]"] FlashErase_def device_def next_ret_def Let_def)
  have b: "program_flash FW_BASE (buf_of_list [1, 2, 3, 4]) 4 (device [] [] flash0)
     = FlashProgram [1, 2, 3, 4] FW_BASE (FlashErase FW_BASE (device [] [] flash0))"
    using program_flash_contract [of 4 FW_BASE "buf_of_list [1, 2, 3, 4]" "device [] [] flash0"]
    by (simp add: bytes_of_def buf_of_list_def up)
  have c: "fst (program_flash FW_BASE (buf_of_list [1, 2, 3, 4]) 4
             ((device [] [] flash0)\<lparr>flash_rets := [5]\<rparr>)) \<noteq> 0"
    using program_flash_contract [of 4 FW_BASE "buf_of_list [1, 2, 3, 4]"
                                    "(device [] [] flash0)\<lparr>flash_rets := [5]\<rparr>"]
    by (simp add: new_calls_def FlashProgram_def FlashErase_def device_def next_ret_def Let_def)
  from a b c show ?thesis by blast
qed

text \<open>
  C8 as it is written has the last word programmed in every call whose length is not a
  multiple of 4. In the call below the length is 7 and the driver reports the status 7
  for the \<open>FlashProgram\<close> of the first four bytes: \<open>program_flash\<close> returns 7 and the
  driver has been called for the erase and for those four bytes only, never for the
  last word.
\<close>

theorem program_flash_stops_after_failed_write:
  "fst (program_flash 1024 (buf_of_list [1, 2, 3, 4, 5, 6, 7]) 7
          ((device [] [] flash0)\<lparr>flash_rets := [7]\<rparr>)) = 7
   \<and> new_calls ((device [] [] flash0)\<lparr>flash_rets := [7]\<rparr>)
         (snd (program_flash 1024 (buf_of_list [1, 2, 3, 4, 5, 6, 7]) 7
                 ((device [] [] flash0)\<lparr>flash_rets := [7]\<rparr>)))
       = [Erased 1024, Programmed 1024 [1, 2, 3, 4] 7]"
proof -
  have up: "[0..<4] = [0, 1, 2, 3]"
    by (simp add: upt_rec)
  have n: "(7 :: nat) mod FLASH_WRITESIZE \<noteq> 0" by simp
  show ?thesis
    by (simp add: program_flash_partial_word [OF n] Let_def split_beta FlashProgram_def
                  FlashErase_def next_ret_def new_calls_def device_def bytes_of_def
                  buf_of_list_def up)
qed

text \<open>
  C2 (anti-rollback). Let the six metadata bytes and the 32 MAC bytes arrive intact,
  with a version that is not 0 and is below the stored version. Then \<open>load_firmware\<close>
  takes the error path right after reading them, whether or not the MAC is the right
  one: the host gets the error byte and no acknowledgement, and the flash is as it was.
\<close>

theorem rollback_rejected_at_metadata:
  assumes "rx s UART1 = ok_bytes md @ ok_bytes mac @ rest"
    and "length md = FW_METADATA_SIZE" and "length mac = HMAC_SIZE"
    and "le16 md 0 \<noteq> 0" and "le16 md 0 < stored_version s"
  shows "load_firmware p s = send_err ((print_bolt s)\<lparr>rx := (rx s)(UART1 := rest)\<rparr>)
       \<and> tx (final (load_firmware p s)) UART1 = tx s UART1 @ [ERROR]
       \<and> flash (final (load_firmware p s)) = flash s
       \<and> flash_log (final (load_firmware p s)) = flash_log s"
proof -
  have "load_firmware p s = send_err ((print_bolt s)\<lparr>rx := (rx s)(UART1 := rest)\<rparr>)"
    by (rule load_firmware_metadata_reject) (use assms in auto)
  then show ?thesis by simp
qed

theorem rollback_rejected_at_metadata_witness:
  "le16 [4, 0, 5, 0, 2, 0] 0 = 4 \<and> stored_version (upload ([4, 0, 5, 0, 2, 0] @ toy_mac [4, 0, 5, 0, 2, 0]) 5) = 5
   \<and> load_firmware (toy_platform 0) (upload ([4, 0, 5, 0, 2, 0] @ toy_mac [4, 0, 5, 0, 2, 0]) 5)
       = send_err ((print_bolt (upload ([4, 0, 5, 0, 2, 0] @ toy_mac [4, 0, 5, 0, 2, 0]) 5))
                     \<lparr>rx := (rx (upload ([4, 0, 5, 0, 2, 0] @ toy_mac [4, 0, 5, 0, 2, 0]) 5))(UART1 := [])\<rparr>)
   \<and> tx (final (load_firmware (toy_platform 0)
                   (upload ([4, 0, 5, 0, 2, 0] @ toy_mac [4, 0, 5, 0, 2, 0]) 5))) UART1 = [ERROR]"
proof -
  let ?md = "[4, 0, 5, 0, 2, 0] :: byte list"
  let ?s = "upload (?md @ toy_mac ?md) 5"
  have rx: "rx ?s UART1 = ok_bytes ?md @ ok_bytes (toy_mac ?md) @ []"
    by (simp add: ok_bytes_def)
  have l: "length ?md = FW_METADATA_SIZE" "length (toy_mac ?md) = HMAC_SIZE"
    by (simp_all add: toy_mac_def)
  have v: "le16 ?md 0 = 4" by (simp add: u16_of_def)
  have sv: "stored_version ?s = 5" by simp
  have v1: "le16 ?md 0 \<noteq> 0" "le16 ?md 0 < stored_version ?s"
    unfolding v sv by simp_all
  show ?thesis
    using rollback_rejected_at_metadata [OF rx l v1, of "toy_platform 0"] v sv
    by simp
qed

text \<open>
  C3 (no flash write before the commit). Whenever the part of \<open>load_firmware\<close> before
  the commit ends the run (a read that fails or never comes, an HMAC mismatch, a bounds
  or version failure, a GCM tag failure), that is how \<open>load_firmware\<close> ends, the flash
  holds what it held before the update and the flash driver has not been called.
\<close>

theorem precommit_rejection_leaves_flash:
  assumes "load_firmware_precommit p s = Inl (h, s')"
  shows "load_firmware p s = Inl (h, s') \<and> flash s' = flash s \<and> flash_log s' = flash_log s"
proof -
  have "untouched s s'"
    using untouched_Inl [OF untouched_load_firmware_precommit assms] .
  then show ?thesis
    using load_firmware_Inl [OF assms] by (simp add: untouched_def)
qed

theorem precommit_rejection_leaves_flash_witness:
  "load_firmware (toy_platform 0) (upload ([4, 0, 5, 0, 2, 0] @ toy_mac [4, 0, 5, 0, 2, 0]) 5)
     = Inl (Reset, uart_write UART1 ERROR (uart_write_str UART2 (''Nice try, kid. Be more original.'' @ nl)
              ((print_bolt (upload ([4, 0, 5, 0, 2, 0] @ toy_mac [4, 0, 5, 0, 2, 0]) 5))
                 \<lparr>rx := (rx (upload ([4, 0, 5, 0, 2, 0] @ toy_mac [4, 0, 5, 0, 2, 0]) 5))(UART1 := [])\<rparr>)))
   \<and> flash (uart_write UART1 ERROR (uart_write_str UART2 (''Nice try, kid. Be more original.'' @ nl)
              ((print_bolt (upload ([4, 0, 5, 0, 2, 0] @ toy_mac [4, 0, 5, 0, 2, 0]) 5))
                 \<lparr>rx := (rx (upload ([4, 0, 5, 0, 2, 0] @ toy_mac [4, 0, 5, 0, 2, 0]) 5))(UART1 := [])\<rparr>)))
       = flash_v 5"
proof -
  let ?md = "[4, 0, 5, 0, 2, 0] :: byte list"
  let ?s = "upload (?md @ toy_mac ?md) 5"
  have rx: "rx ?s UART1 = ok_bytes ?md @ ok_bytes (toy_mac ?md) @ []"
    by (simp add: ok_bytes_def)
  have l: "length ?md = 6" "length (toy_mac ?md) = 32"
    by (simp_all add: toy_mac_def)
  have bad: "(le16 ?md 0 \<noteq> 0 \<and> le16 ?md 0 < stored_version ?s) \<or> unat (le16 ?md 2) > FW_MAX_SIZE
              \<or> unat (le16 ?md 4) > RELEASE_MAX_SIZE"
    by (simp add: u16_of_def)
  have pc: "load_firmware_precommit (toy_platform 0) ?s
     = Inl (Reset, uart_write UART1 ERROR (uart_write_str UART2 (''Nice try, kid. Be more original.'' @ nl)
              ((print_bolt ?s)\<lparr>rx := (rx ?s)(UART1 := [])\<rparr>)))"
    using load_firmware_precommit_reject [OF rx l bad, of "toy_platform 0"]
    by (simp only: send_err_def)
  show ?thesis
    using precommit_rejection_leaves_flash [OF pc] by simp
qed

text \<open>
  C10 (the staging buffer). When the metadata stage has accepted a metadata with
  \<open>1 \<le> fw_size \<le> 30720\<close> and \<open>release_msg_size \<le> 1024\<close>, no run of
  \<open>load_firmware\<close> ends in a store outside \<open>data\<close>: every store has an index below
  \<open>DATA_SIZE\<close>.
\<close>

theorem staging_writes_in_bounds:
  assumes md: "load_firmware_metadata p (print_bolt s)
                 = Inr ((metadata, version, fw_size, r_msg_size, frame_number), s1)"
    and sz: "1 \<le> unat fw_size" "unat fw_size \<le> 30720" and msg: "unat r_msg_size \<le> 1024"
  shows "\<forall>s'. load_firmware p s \<noteq> Inl (OutOfBounds, s')"
proof -
  have fn: "frame_number = frame_number_of p fw_size"
    using load_firmware_metadata_Inr [OF md] by simp
  have nz: "fw_size \<noteq> 0" using sz(1) by auto
  have "unat frame_number < 30"
    unfolding fn by (rule frame_number_of_bound [OF nz]) (use sz in simp)
  then have fr: "in_bounds (load_firmware_frames p version fw_size frame_number 0 0 s1)"
    by (rule in_bounds_load_firmware_frames)
  have vf: "in_bounds (load_firmware_verify p metadata fw_size r_msg_size br s2)" for br s2
    by (rule in_bounds_load_firmware_verify) (use sz msg in simp_all)
  have "in_bounds (load_firmware_precommit p s)"
    unfolding load_firmware_precommit_def
    by (simp add: bnd_def [of "put print_bolt"] put_def bnd_def [of "load_firmware_metadata p"] md)
       (auto intro!: in_bounds_bnd fr vf)
  then have "in_bounds (load_firmware p s)"
    unfolding load_firmware_def
    by (auto intro!: in_bounds_bnd split: prod.splits)
  then show ?thesis by (auto simp: in_bounds_def)
qed

theorem staging_writes_in_bounds_witness:
  "(1 :: nat) \<le> unat (5 :: 16 word) \<and> unat (5 :: 16 word) \<le> 30720 \<and> unat (2 :: 16 word) \<le> 1024
   \<and> (\<forall>s'. load_firmware (toy_platform 0) (upload happy_input 2) \<noteq> Inl (OutOfBounds, s'))"
proof -
  let ?md = "[3, 0, 5, 0, 2, 0] :: byte list"
  let ?s = "print_bolt (upload happy_input 2)"
  obtain rest where rx: "rx ?s UART1 = ok_bytes ?md @ ok_bytes (toy_mac ?md) @ rest"
    by (simp add: happy_input_def ok_bytes_def)
  have l: "length ?md = 6" "length (toy_mac ?md) = 32"
    by (simp_all add: toy_mac_def)
  have mac: "\<forall>k<32. toy_mac ?md ! k = buf_of_list (hmac_sha256 (toy_platform 0) ?md) k"
    by (simp add: toy_platform_def buf_of_list_def toy_mac_def)
  have md: "load_firmware_metadata (toy_platform 0) ?s
              = Inr ((buf_of_list ?md, 3, 5, 2, frame_number_of (toy_platform 0) 5),
                     uart_write UART1 OK (?s\<lparr>rx := (rx ?s)(UART1 := rest)\<rparr>))"
    using mac by (simp add: load_firmware_metadata_exec [OF rx l] u16_of_def)
  have b: "(1 :: nat) \<le> unat (5 :: 16 word)" "unat (5 :: 16 word) \<le> 30720"
    "unat (2 :: 16 word) \<le> 1024"
    by simp_all
  show ?thesis
    using staging_writes_in_bounds [OF md b] b by simp
qed

text \<open>
  C5 (version 1 is reserved). A frame whose metadata and MAC arrive intact and whose
  \<open>frame_version\<close> is 1 takes the error path, whatever the MAC is. And an update whose
  firmware metadata carries version 1 never returns: it ends at the metadata stage
  with the error byte, or after the acknowledgement of the metadata and before any
  frame is acknowledged; the flash is as it was.
\<close>

theorem frame_version_1_rejected:
  "(rx s UART1 = ok_bytes fm @ ok_bytes mac @ rest \<and> length fm = FR_METADATA_SIZE
      \<and> length mac = HMAC_SIZE \<and> le16 fm 4 = 1
    \<longrightarrow> load_firmware_frame p version fw_size frame_number index_check bytes_recieved s
          = send_err (s\<lparr>rx := (rx s)(UART1 := rest)\<rparr>))
   \<and> (rx s0 UART1 = ok_bytes md @ ok_bytes mac0 @ rest0 \<and> length md = FW_METADATA_SIZE
      \<and> length mac0 = HMAC_SIZE \<and> le16 md 0 = 1
    \<longrightarrow> (\<exists>h s'. load_firmware p s0 = Inl (h, s')
             \<and> flash s' = flash s0 \<and> flash_log s' = flash_log s0
             \<and> (tx s' UART1 = tx s0 UART1 @ [ERROR]
                  \<or> tx s' UART1 = tx s0 UART1 @ [OK] @ (if h = Reset then [ERROR] else []))))"
proof (intro conjI impI)
  assume "rx s UART1 = ok_bytes fm @ ok_bytes mac @ rest \<and> length fm = FR_METADATA_SIZE
      \<and> length mac = HMAC_SIZE \<and> le16 fm 4 = 1"
  then show "load_firmware_frame p version fw_size frame_number index_check bytes_recieved s
          = send_err (s\<lparr>rx := (rx s)(UART1 := rest)\<rparr>)"
    by (intro load_firmware_frame_reject) auto
next
  assume "rx s0 UART1 = ok_bytes md @ ok_bytes mac0 @ rest0 \<and> length md = FW_METADATA_SIZE
      \<and> length mac0 = HMAC_SIZE \<and> le16 md 0 = 1"
  then show "\<exists>h s'. load_firmware p s0 = Inl (h, s')
             \<and> flash s' = flash s0 \<and> flash_log s' = flash_log s0
             \<and> (tx s' UART1 = tx s0 UART1 @ [ERROR]
                  \<or> tx s' UART1 = tx s0 UART1 @ [OK] @ (if h = Reset then [ERROR] else []))"
    by (intro load_firmware_version_1) auto
qed

theorem frame_version_1_rejected_witness:
  "load_firmware_frame (toy_platform 0) 1 5 0 0 0
       (upload ([0, 0, 5, 0, 1, 0] @ toy_mac [0, 0, 5, 0, 1, 0]) 1)
     = send_err ((upload ([0, 0, 5, 0, 1, 0] @ toy_mac [0, 0, 5, 0, 1, 0]) 1)
                   \<lparr>rx := (rx (upload ([0, 0, 5, 0, 1, 0] @ toy_mac [0, 0, 5, 0, 1, 0]) 1))
                            (UART1 := [])\<rparr>)
   \<and> (\<exists>h s'. load_firmware (toy_platform 0)
                 (upload ([1, 0, 5, 0, 2, 0] @ toy_mac [1, 0, 5, 0, 2, 0]
                          @ [0, 0, 5, 0, 1, 0] @ toy_mac [0, 0, 5, 0, 1, 0]) 1) = Inl (h, s')
         \<and> flash s' = flash_v 1 \<and> flash_log s' = []
         \<and> (tx s' UART1 = [ERROR] \<or> tx s' UART1 = [OK] @ (if h = Reset then [ERROR] else [])))"
proof -
  let ?fm = "[0, 0, 5, 0, 1, 0] :: byte list"
  let ?md = "[1, 0, 5, 0, 2, 0] :: byte list"
  let ?s = "upload (?fm @ toy_mac ?fm) 1"
  let ?u = "upload (?md @ toy_mac ?md @ ?fm @ toy_mac ?fm) 1"
  have a1: "rx ?s UART1 = ok_bytes ?fm @ ok_bytes (toy_mac ?fm) @ []"
    by (simp add: ok_bytes_def)
  have a2: "length ?fm = FR_METADATA_SIZE" "length (toy_mac ?fm) = HMAC_SIZE"
    by (simp_all add: toy_mac_def)
  have a3: "le16 ?fm 4 = 1"
    by (simp add: u16_of_def)
  have a: "rx ?s UART1 = ok_bytes ?fm @ ok_bytes (toy_mac ?fm) @ [] \<and> length ?fm = FR_METADATA_SIZE
      \<and> length (toy_mac ?fm) = HMAC_SIZE \<and> le16 ?fm 4 = 1"
    using a1 a2 a3 by blast
  have b1: "rx ?u UART1 = ok_bytes ?md @ ok_bytes (toy_mac ?md) @ ok_bytes (?fm @ toy_mac ?fm)"
    by (simp add: ok_bytes_def)
  have b2: "length ?md = FW_METADATA_SIZE" "length (toy_mac ?md) = HMAC_SIZE"
    by (simp_all add: toy_mac_def)
  have b3: "le16 ?md 0 = 1"
    by (simp add: u16_of_def)
  have b: "rx ?u UART1 = ok_bytes ?md @ ok_bytes (toy_mac ?md) @ ok_bytes (?fm @ toy_mac ?fm)
      \<and> length ?md = FW_METADATA_SIZE \<and> length (toy_mac ?md) = HMAC_SIZE \<and> le16 ?md 0 = 1"
    using b1 b2 b3 by blast
  show ?thesis
    using frame_version_1_rejected
            [where s = ?s and fm = ?fm and mac = "toy_mac ?fm" and rest = "[]"
               and p = "toy_platform 0" and version = 1 and fw_size = 5 and frame_number = 0
               and index_check = 0 and bytes_recieved = 0
               and ?s0.0 = ?u and md = ?md and ?mac0.0 = "toy_mac ?md"
               and ?rest0.0 = "ok_bytes (?fm @ toy_mac ?fm)"]
          a b
    by simp
qed

text \<open>
  C6 (bounds). Each of these takes the error path: a firmware metadata with
  \<open>fw_size > 30720\<close>; one with \<open>release_msg_size > 1024\<close>; a frame metadata with
  \<open>frame_length > 1024\<close> (metadata and MAC arriving intact, whatever the MAC is); and,
  in the loop that reads a frame, a byte that takes the running count above
  \<open>fw_size\<close> (the byte has been stored by then, inside the array).
\<close>

theorem bounds_rejected:
  "(rx s UART1 = ok_bytes md @ ok_bytes mac @ rest \<and> length md = FW_METADATA_SIZE
      \<and> length mac = HMAC_SIZE \<and> unat (le16 md 2) > 30720
    \<longrightarrow> load_firmware p s = send_err ((print_bolt s)\<lparr>rx := (rx s)(UART1 := rest)\<rparr>))
   \<and> (rx s UART1 = ok_bytes md @ ok_bytes mac @ rest \<and> length md = FW_METADATA_SIZE
      \<and> length mac = HMAC_SIZE \<and> unat (le16 md 4) > 1024
    \<longrightarrow> load_firmware p s = send_err ((print_bolt s)\<lparr>rx := (rx s)(UART1 := rest)\<rparr>))
   \<and> (rx s UART1 = ok_bytes fm @ ok_bytes mac @ rest \<and> length fm = FR_METADATA_SIZE
      \<and> length mac = HMAC_SIZE \<and> unat (le16 fm 2) > 1024
    \<longrightarrow> load_firmware_frame p version fw_size frame_number index_check bytes_recieved s
          = send_err (s\<lparr>rx := (rx s)(UART1 := rest)\<rparr>))
   \<and> (i < unat frame_length \<and> i < FLASH_PAGESIZE \<and> rx s UART1 = (b, ok) # rest
      \<and> FLASH_PAGESIZE * unat index + i < DATA_SIZE \<and> unat (bytes_recieved + 1) > unat fw_size
    \<longrightarrow> read_frame i frame_length index fw_size bytes_recieved s
          = send_err (s\<lparr>rx := (rx s)(UART1 := rest),
                        data := (data s)(FLASH_PAGESIZE * unat index + i := b)\<rparr>))"
proof (intro conjI impI)
  assume "rx s UART1 = ok_bytes md @ ok_bytes mac @ rest \<and> length md = FW_METADATA_SIZE
      \<and> length mac = HMAC_SIZE \<and> unat (le16 md 2) > 30720"
  then show "load_firmware p s = send_err ((print_bolt s)\<lparr>rx := (rx s)(UART1 := rest)\<rparr>)"
    by (intro load_firmware_metadata_reject) auto
next
  assume "rx s UART1 = ok_bytes md @ ok_bytes mac @ rest \<and> length md = FW_METADATA_SIZE
      \<and> length mac = HMAC_SIZE \<and> unat (le16 md 4) > 1024"
  then show "load_firmware p s = send_err ((print_bolt s)\<lparr>rx := (rx s)(UART1 := rest)\<rparr>)"
    by (intro load_firmware_metadata_reject) auto
next
  assume "rx s UART1 = ok_bytes fm @ ok_bytes mac @ rest \<and> length fm = FR_METADATA_SIZE
      \<and> length mac = HMAC_SIZE \<and> unat (le16 fm 2) > 1024"
  then show "load_firmware_frame p version fw_size frame_number index_check bytes_recieved s
          = send_err (s\<lparr>rx := (rx s)(UART1 := rest)\<rparr>)"
    by (intro load_firmware_frame_reject) auto
next
  assume "i < unat frame_length \<and> i < FLASH_PAGESIZE \<and> rx s UART1 = (b, ok) # rest
      \<and> FLASH_PAGESIZE * unat index + i < DATA_SIZE \<and> unat (bytes_recieved + 1) > unat fw_size"
  then show "read_frame i frame_length index fw_size bytes_recieved s
          = send_err (s\<lparr>rx := (rx s)(UART1 := rest),
                        data := (data s)(FLASH_PAGESIZE * unat index + i := b)\<rparr>)"
    by (intro read_frame_overrun) auto
qed

theorem bounds_rejected_witness:
  "load_firmware (toy_platform 0) (upload ([2, 0, 1, 0x78, 2, 0] @ toy_mac [2, 0, 1, 0x78, 2, 0]) 2)
     = send_err ((print_bolt (upload ([2, 0, 1, 0x78, 2, 0] @ toy_mac [2, 0, 1, 0x78, 2, 0]) 2))
                   \<lparr>rx := (rx (upload ([2, 0, 1, 0x78, 2, 0] @ toy_mac [2, 0, 1, 0x78, 2, 0]) 2))
                            (UART1 := [])\<rparr>)
   \<and> load_firmware (toy_platform 0) (upload ([2, 0, 5, 0, 1, 4] @ toy_mac [2, 0, 5, 0, 1, 4]) 2)
     = send_err ((print_bolt (upload ([2, 0, 5, 0, 1, 4] @ toy_mac [2, 0, 5, 0, 1, 4]) 2))
                   \<lparr>rx := (rx (upload ([2, 0, 5, 0, 1, 4] @ toy_mac [2, 0, 5, 0, 1, 4]) 2))
                            (UART1 := [])\<rparr>)
   \<and> load_firmware_frame (toy_platform 0) 2 2000 1 0 0
        (upload ([0, 0, 1, 4, 2, 0] @ toy_mac [0, 0, 1, 4, 2, 0]) 2)
     = send_err ((upload ([0, 0, 1, 4, 2, 0] @ toy_mac [0, 0, 1, 4, 2, 0]) 2)
                   \<lparr>rx := (rx (upload ([0, 0, 1, 4, 2, 0] @ toy_mac [0, 0, 1, 4, 2, 0]) 2))
                            (UART1 := [])\<rparr>)
   \<and> read_frame 0 6 0 5 5 (upload [7] 2)
     = send_err ((upload [7] 2)\<lparr>rx := (rx (upload [7] 2))(UART1 := []),
                                 data := (data (upload [7] 2))(FLASH_PAGESIZE * unat (0 :: 16 word) + 0 := 7)\<rparr>)"
proof -
  let ?m1 = "[2, 0, 1, 0x78, 2, 0] :: byte list"
  let ?m2 = "[2, 0, 5, 0, 1, 4] :: byte list"
  let ?fm = "[0, 0, 1, 4, 2, 0] :: byte list"
  have a: "rx (upload (?m1 @ toy_mac ?m1) 2) UART1 = ok_bytes ?m1 @ ok_bytes (toy_mac ?m1) @ []
      \<and> length ?m1 = FW_METADATA_SIZE \<and> length (toy_mac ?m1) = HMAC_SIZE
      \<and> unat (le16 ?m1 2) > 30720"
    by (simp add: ok_bytes_def toy_mac_def u16_of_def)
  have b: "rx (upload (?m2 @ toy_mac ?m2) 2) UART1 = ok_bytes ?m2 @ ok_bytes (toy_mac ?m2) @ []
      \<and> length ?m2 = FW_METADATA_SIZE \<and> length (toy_mac ?m2) = HMAC_SIZE
      \<and> unat (le16 ?m2 4) > 1024"
    by (simp add: ok_bytes_def toy_mac_def u16_of_def)
  have c: "rx (upload (?fm @ toy_mac ?fm) 2) UART1 = ok_bytes ?fm @ ok_bytes (toy_mac ?fm) @ []
      \<and> length ?fm = FR_METADATA_SIZE \<and> length (toy_mac ?fm) = HMAC_SIZE
      \<and> unat (le16 ?fm 2) > 1024"
    by (simp add: ok_bytes_def toy_mac_def u16_of_def)
  have d: "0 < unat (6 :: 16 word) \<and> 0 < FLASH_PAGESIZE \<and> rx (upload [7] 2) UART1 = (7, True) # []
      \<and> FLASH_PAGESIZE * unat (0 :: 16 word) + 0 < DATA_SIZE
      \<and> unat ((5 :: 32 word) + 1) > unat (5 :: 16 word)"
    by (simp add: ok_bytes_def)
  have A: "load_firmware (toy_platform 0) (upload (?m1 @ toy_mac ?m1) 2)
     = send_err ((print_bolt (upload (?m1 @ toy_mac ?m1) 2))
                   \<lparr>rx := (rx (upload (?m1 @ toy_mac ?m1) 2))(UART1 := [])\<rparr>)"
    using bounds_rejected [where s = "upload (?m1 @ toy_mac ?m1) 2" and md = ?m1
                             and mac = "toy_mac ?m1" and rest = "[]" and p = "toy_platform 0"] a
    by blast
  have B: "load_firmware (toy_platform 0) (upload (?m2 @ toy_mac ?m2) 2)
     = send_err ((print_bolt (upload (?m2 @ toy_mac ?m2) 2))
                   \<lparr>rx := (rx (upload (?m2 @ toy_mac ?m2) 2))(UART1 := [])\<rparr>)"
    using bounds_rejected [where s = "upload (?m2 @ toy_mac ?m2) 2" and md = ?m2
                             and mac = "toy_mac ?m2" and rest = "[]" and p = "toy_platform 0"] b
    by blast
  have C: "load_firmware_frame (toy_platform 0) 2 2000 1 0 0 (upload (?fm @ toy_mac ?fm) 2)
     = send_err ((upload (?fm @ toy_mac ?fm) 2)
                   \<lparr>rx := (rx (upload (?fm @ toy_mac ?fm) 2))(UART1 := [])\<rparr>)"
    using bounds_rejected [where s = "upload (?fm @ toy_mac ?fm) 2" and fm = ?fm
                             and mac = "toy_mac ?fm" and rest = "[]" and p = "toy_platform 0"] c
    by blast
  have D: "read_frame 0 6 0 5 5 (upload [7] 2)
     = send_err ((upload [7] 2)\<lparr>rx := (rx (upload [7] 2))(UART1 := []),
                                 data := (data (upload [7] 2))(FLASH_PAGESIZE * unat (0 :: 16 word) + 0 := 7)\<rparr>)"
    using bounds_rejected [where s = "upload [7] 2" and i = 0 and frame_length = 6 and b = 7
                             and ok = True and rest = "[]" and index = 0 and bytes_recieved = 5
                             and fw_size = 5] d
    by blast
  from A B C D show ?thesis by blast
qed

text \<open>
  C4 (debug upload). Let the part of \<open>load_firmware\<close> before the commit accept an
  update with \<open>version = 0\<close>, and let \<open>load_firmware\<close> return. Then the first word
  programmed at \<open>METADATA_BASE\<close> starts with the two version bytes the flash held
  before the update, so the stored version is what it was; the size and the release
  message size of the new metadata are programmed; the firmware region holds the
  decrypted firmware and the release message page holds the release message.
\<close>

theorem debug_upload_keeps_stored_version:
  assumes pre: "load_firmware_precommit p s = Inr ((metadata, 0, fw_size, r_msg_size), s1)"
    and run: "load_firmware p s = Inr ((), s')"
  shows "Programmed METADATA_BASE
           [flash s METADATA_BASE, flash s (METADATA_BASE + 1), metadata 2, metadata 3] 0
           \<in> set (new_calls s s')
       \<and> flash s' METADATA_BASE = flash s METADATA_BASE
       \<and> flash s' (METADATA_BASE + 1) = flash s (METADATA_BASE + 1)
       \<and> stored_version s' = stored_version s
       \<and> (\<forall>j<unat fw_size. flash s' (FW_BASE + j) = data s1 j)
       \<and> (\<forall>j<unat r_msg_size. flash s' (RELEASE_BASE + j) = fw_release_message s1 j)"
proof -
  have c: "load_firmware_commit metadata 0 fw_size r_msg_size s1 = Inr ((), s')"
    using run by (simp add: load_firmware_def bnd_def pre)
  have p: "unat r_msg_size \<le> 1024" "flash s1 = flash s" "flash_log s1 = flash_log s"
    using load_firmware_precommit_Inr [OF pre] by simp_all
  note sp = load_firmware_commit_spec [OF c p(1)]
  from sp obtain cs cs' where
    l: "flash_log s' = flash_log s1 @ cs
              @ [Erased METADATA_BASE,
                 Programmed METADATA_BASE
                   [flash s1 METADATA_BASE, flash s1 (METADATA_BASE + 1), metadata 2, metadata 3] 0,
                 Programmed (METADATA_BASE + 4) [metadata 4, metadata 5, 0xFF, 0xFF] 0] @ cs'"
    by auto
  have A: "Programmed METADATA_BASE
           [flash s METADATA_BASE, flash s (METADATA_BASE + 1), metadata 2, metadata 3] 0
           \<in> set (new_calls s s')"
    unfolding new_calls_def l p by simp
  have B: "flash s' METADATA_BASE = flash s METADATA_BASE"
    using sp p(2) by (auto dest: spec [of _ 0])
  have C: "flash s' (METADATA_BASE + 1) = flash s (METADATA_BASE + 1)"
    using sp p(2) by (auto dest: spec [of _ 1])
  have D: "stored_version s' = stored_version s"
    unfolding stored_version_def B C ..
  from A B C D sp show ?thesis by blast
qed

theorem debug_upload_keeps_stored_version_witness:
  "\<exists>metadata s1 s'.
     load_firmware_precommit (toy_platform 0) (upload debug_input 9) = Inr ((metadata, 0, 5, 2), s1)
   \<and> load_firmware (toy_platform 0) (upload debug_input 9) = Inr ((), s')
   \<and> Programmed METADATA_BASE [9, 0, 5, 0] 0 \<in> set (flash_log s')
   \<and> stored_version s' = 9
   \<and> map (flash s') [FW_BASE, FW_BASE + 1, FW_BASE + 2, FW_BASE + 3, FW_BASE + 4]
        = [254, 253, 252, 251, 250]
   \<and> map (flash s') [RELEASE_BASE, RELEASE_BASE + 1] = [0x68, 0x69]"
proof -
  let ?p = "toy_platform 0"
  let ?s = "upload debug_input 9"
  from debug_input_run obtain metadata s1 where
    pre: "load_firmware_precommit ?p ?s = Inr ((metadata, 0, 5, 2), s1)"
    and m: "metadata 2 = 5" "metadata 3 = 0"
    and d: "map (data s1) [0, 1, 2, 3, 4] = [254, 253, 252, 251, 250]"
    and r: "map (fw_release_message s1) [0, 1] = [0x68, 0x69]"
    by (cases "load_firmware_precommit ?p ?s") auto
  have "flash_rets s1 = []"
    using load_firmware_precommit_Inr [OF pre] by simp
  then obtain s' where c: "load_firmware_commit metadata 0 5 2 s1 = Inr ((), s')"
    using load_firmware_commit_no_failure by blast
  have run: "load_firmware ?p ?s = Inr ((), s')"
    by (simp add: load_firmware_def bnd_def pre c)
  note t = debug_upload_keeps_stored_version [OF pre run]
  have fw: "flash s' (FW_BASE + j) = data s1 j" if "j < 5" for j
    using t that by simp
  have ms: "flash s' (RELEASE_BASE + j) = fw_release_message s1 j" if "j < 2" for j
    using t that by simp
  have A: "Programmed METADATA_BASE [9, 0, 5, 0] 0 \<in> set (flash_log s')"
    using t m by (simp add: new_calls_def flash_v_def)
  have B: "stored_version s' = 9" using t by simp
  have C: "map (flash s') [FW_BASE, FW_BASE + 1, FW_BASE + 2, FW_BASE + 3, FW_BASE + 4]
        = [254, 253, 252, 251, 250]"
    using fw [of 0] fw [of 1] fw [of 2] fw [of 3] fw [of 4] d by simp
  have D: "map (flash s') [RELEASE_BASE, RELEASE_BASE + 1] = [0x68, 0x69]"
    using ms [of 0] ms [of 1] r by simp
  from pre run A B C D show ?thesis
    by - (intro exI conjI, assumption+)
qed

text \<open>
  C9 (firmware size 0). The code does otherwise: nothing in \<open>load_firmware\<close> rejects
  \<open>fw_size = 0\<close>. On every platform a metadata with \<open>fw_size = 0\<close>, its right MAC, an
  admissible version and an admissible release message size passes lines 317 to 354:
  \<open>OK\<close> is sent to the host and the frame loop is entered with \<open>frame_number\<close> the value
  the target gives the conversion of \<open>-1.0\<close> to \<open>uint16_t\<close> (line 332), which C leaves
  undefined.
\<close>

theorem zero_size_metadata_accepted:
  assumes rx: "rx s UART1 = ok_bytes md @ ok_bytes (hmac_sha256 p md) @ rest"
    and len: "length md = FW_METADATA_SIZE" "length (hmac_sha256 p md) = HMAC_SIZE"
    and z: "le16 md 2 = 0"
    and v: "le16 md 0 = 0 \<or> stored_version s \<le> le16 md 0"
    and m: "unat (le16 md 4) \<le> RELEASE_MAX_SIZE"
  shows "load_firmware_metadata p s
           = Inr ((buf_of_list md, le16 md 0, 0, le16 md 4, neg_to_u16 p),
                  uart_write UART1 OK (s\<lparr>rx := (rx s)(UART1 := rest)\<rparr>))"
proof -
  have l: "length md = 6" "length (hmac_sha256 p md) = 32" using len by simp_all
  have mac: "\<forall>k<32. hmac_sha256 p md ! k = buf_of_list (hmac_sha256 p md) k"
    using l(2) by (simp add: buf_of_list_def)
  have nv: "\<not> (le16 md 0 \<noteq> 0 \<and> le16 md 0 < stored_version s)"
    using v by auto
  have fn: "frame_number_of p 0 = neg_to_u16 p"
    by (simp add: frame_number_of_def)
  show ?thesis
    using mac nv m z fn
    by (simp add: load_firmware_metadata_exec [OF rx l] Let_def)
qed

theorem zero_size_metadata_accepted_witness:
  "le16 [8, 0, 0, 0, 0, 0] 2 = 0
   \<and> stored_version (upload zero_size_input 7) = 7
   \<and> load_firmware_metadata (toy_platform 0) (upload zero_size_input 7)
       = Inr ((buf_of_list [8, 0, 0, 0, 0, 0], 8, 0, 0, 0),
              uart_write UART1 OK
                ((upload zero_size_input 7)
                   \<lparr>rx := (rx (upload zero_size_input 7))(UART1 := ok_bytes (drop 38 zero_size_input))\<rparr>))"
proof -
  let ?md = "[8, 0, 0, 0, 0, 0] :: byte list"
  let ?p = "toy_platform 0"
  let ?s = "upload zero_size_input 7"
  have h: "hmac_sha256 ?p ?md = toy_mac ?md" by (simp add: toy_platform_def)
  have rx: "rx ?s UART1 = ok_bytes ?md @ ok_bytes (hmac_sha256 ?p ?md) @ ok_bytes (drop 38 zero_size_input)"
    unfolding h by (simp add: zero_size_input_def toy_mac_def ok_bytes_def replicate_numeral_Cons)
  have l: "length ?md = FW_METADATA_SIZE" "length (hmac_sha256 ?p ?md) = HMAC_SIZE"
    unfolding h by (simp_all add: toy_mac_def)
  have z: "le16 ?md 2 = 0" by (simp add: u16_of_def)
  have f: "le16 ?md 0 = 8" "le16 ?md 4 = 0" by (simp_all add: u16_of_def)
  have v: "le16 ?md 0 = 0 \<or> stored_version ?s \<le> le16 ?md 0"
    unfolding f by simp
  have m: "unat (le16 ?md 4) \<le> RELEASE_MAX_SIZE" unfolding f by simp
  have n: "neg_to_u16 ?p = 0" by (simp add: toy_platform_def)
  show ?thesis
    using zero_size_metadata_accepted [OF rx l z v m] z
    by (simp only: f n upload_simps) simp
qed

text \<open>
  What becomes of the update is decided by that value. Where it is 0 the frame loop
  ends after the frame with index 0, and the upload \<open>zero_size_input\<close>, whose metadata
  has \<open>fw_size = 0\<close>, is committed: \<open>load_firmware\<close> returns, the metadata page has been
  programmed and the stored version has gone from 7 to 8.
\<close>

theorem zero_size_update_commits:
  "le16 (take 6 zero_size_input) 2 = 0
   \<and> (\<exists>s'. load_firmware (toy_platform 0) (upload zero_size_input 7) = Inr ((), s')
          \<and> Programmed METADATA_BASE [8, 0, 0, 0] 0 \<in> set (new_calls (upload zero_size_input 7) s')
          \<and> stored_version (upload zero_size_input 7) = 7 \<and> stored_version s' = 8)"
proof -
  let ?p = "toy_platform 0"
  let ?s = "upload zero_size_input 7"
  from zero_size_input_run obtain metadata s1 where
    pre: "load_firmware_precommit ?p ?s = Inr ((metadata, 8, 0, 0), s1)"
    and m: "map metadata [0, 1, 2, 3] = [8, 0, 0, 0]"
    by (cases "load_firmware_precommit ?p ?s") auto
  have q: "flash_rets s1 = []" "flash_log s1 = []" "flash s1 = flash ?s"
    using load_firmware_precommit_Inr [OF pre] by simp_all
  obtain s' where c: "load_firmware_commit metadata 8 0 0 s1 = Inr ((), s')"
    using load_firmware_commit_no_failure [OF q(1)] by blast
  have run: "load_firmware ?p ?s = Inr ((), s')"
    by (simp add: load_firmware_def bnd_def pre c)
  have sp: "(\<forall>j<6. flash s' (METADATA_BASE + j) = metadata j)
       \<and> (\<exists>cs cs'. flash_log s' = flash_log s1 @ cs
              @ [Erased METADATA_BASE,
                 Programmed METADATA_BASE [metadata 0, metadata 1, metadata 2, metadata 3] 0,
                 Programmed (METADATA_BASE + 4) [metadata 4, metadata 5, 0xFF, 0xFF] 0] @ cs')"
    using load_firmware_commit_spec [OF c] by simp
  have A: "Programmed METADATA_BASE [8, 0, 0, 0] 0 \<in> set (new_calls ?s s')"
    using sp m q by (auto simp: new_calls_def)
  have f: "flash s' METADATA_BASE = 8" "flash s' (METADATA_BASE + 1) = 0"
    using sp m by (auto dest: spec [of _ 0] spec [of _ 1])
  have B: "stored_version s' = 8"
    unfolding stored_version_def f by simp
  have Z: "le16 (take 6 zero_size_input) 2 = 0"
    by (simp add: zero_size_input_def u16_of_def)
  from Z run A B show ?thesis by simp
qed

text \<open>
  Where the value is \<open>0xFFFF\<close> the loop expects a second frame, and the same upload
  ends in a reset with the flash as it was.
\<close>

theorem zero_size_update_rejected_other_conversion:
  "\<exists>s'. load_firmware (toy_platform 0xFFFF) (upload zero_size_input 7) = Inl (Reset, s')
          \<and> flash s' = flash (upload zero_size_input 7) \<and> flash_log s' = []"
proof -
  let ?p = "toy_platform 0xFFFF"
  let ?s = "upload zero_size_input 7"
  from zero_size_input_run_other obtain s' where pre: "load_firmware_precommit ?p ?s = Inl (Reset, s')"
    by (cases "load_firmware_precommit ?p ?s") auto
  have "untouched ?s s'"
    using untouched_Inl [OF untouched_load_firmware_precommit pre] .
  then show ?thesis
    using load_firmware_Inl [OF pre] by (simp add: untouched_def)
qed

end
